theory Spec2Isabelle
  imports Main "HOL-Library.Sublist" "HOL-Library.FSet" "HOL-Library.AList"
begin

section \<open>Python values and exceptions\<close>

text \<open>
  The server passes plain Python dictionaries around. The values that can sit in them are
  modelled by a JSON-like datatype: \<open>None\<close>, booleans, integers, strings, lists, and
  dictionaries with string keys (an association list in insertion order, looked up with
  \<open>map_of\<close>). Floating-point numbers are left out.
\<close>

datatype pyval =
    PNone
  | PBool bool
  | PInt int
  | PStr string
  | PList "pyval list"
  | PDict "(string \<times> pyval) list"

type_synonym pydict = "(string \<times> pyval) list"

text \<open>
  Raised exceptions are values. \<open>AttributeError\<close>, \<open>TypeError\<close>, \<open>IndexError\<close> and \<open>Exception\<close> are
  instances of Python's \<open>Exception\<close> class (the ones an \<open>except Exception\<close> clause
  catches); \<open>BaseException\<close> stands for a raised object that is not, such as
  \<open>KeyboardInterrupt\<close> or \<open>asyncio.CancelledError\<close>. The string is \<open>str(e)\<close>.
\<close>

datatype py_error =
    AttributeError string
  | TypeError string
  | IndexError string
  | Exception string
  | BaseException string

fun is_Exception :: "py_error \<Rightarrow> bool" where
  "is_Exception (BaseException m) = False"
| "is_Exception e = True"

fun str_of :: "py_error \<Rightarrow> string" where
  "str_of (AttributeError m) = m"
| "str_of (TypeError m) = m"
| "str_of (IndexError m) = m"
| "str_of (Exception m) = m"
| "str_of (BaseException m) = m"

text \<open>The class name Python prints for a value, as it appears in error messages.\<close>

fun type_name :: "pyval \<Rightarrow> string" where
  "type_name PNone = ''NoneType''"
| "type_name (PBool b) = ''bool''"
| "type_name (PInt n) = ''int''"
| "type_name (PStr s) = ''str''"
| "type_name (PList xs) = ''list''"
| "type_name (PDict d) = ''dict''"

definition no_attribute :: "pyval \<Rightarrow> string \<Rightarrow> py_error" where
  "no_attribute v a =
     AttributeError ([CHR 0x27] @ type_name v @ [CHR 0x27] @ '' object has no attribute ''
                     @ [CHR 0x27] @ a @ [CHR 0x27])"

text \<open>Truth value of an object, as \<open>if x:\<close> tests it.\<close>

fun truthy :: "pyval \<Rightarrow> bool" where
  "truthy PNone = False"
| "truthy (PBool b) = b"
| "truthy (PInt n) = (n \<noteq> 0)"
| "truthy (PStr s) = (s \<noteq> [])"
| "truthy (PList xs) = (xs \<noteq> [])"
| "truthy (PDict d) = (d \<noteq> [])"

text \<open>\<open>d.get(k)\<close> and \<open>d.get(k, default)\<close> on a dictionary.\<close>

definition dict_get :: "pydict \<Rightarrow> string \<Rightarrow> pyval" where
  "dict_get d k = (case map_of d k of None \<Rightarrow> PNone | Some v \<Rightarrow> v)"

definition dict_get_default :: "pydict \<Rightarrow> string \<Rightarrow> pyval \<Rightarrow> pyval" where
  "dict_get_default d k dflt = (case map_of d k of None \<Rightarrow> dflt | Some v \<Rightarrow> v)"

text \<open>\<open>v.get(k, default)\<close> on any object: only a dictionary has the method.\<close>

fun attr_get :: "pyval \<Rightarrow> string \<Rightarrow> pyval \<Rightarrow> py_error + pyval" where
  "attr_get (PDict d) k dflt = Inr (dict_get_default d k dflt)"
| "attr_get v k dflt = Inl (no_attribute v ''get'')"

text \<open>
  The sequence a \<open>for\<close> loop runs over: the elements of a list, the characters of a
  string, the keys of a dictionary; other values are not iterable.
\<close>

fun iterate :: "pyval \<Rightarrow> py_error + pyval list" where
  "iterate (PList xs) = Inr xs"
| "iterate (PStr s) = Inr (map (\<lambda>c. PStr [c]) s)"
| "iterate (PDict d) = Inr (map PStr (map fst (AList.clearjunk d)))"
| "iterate v = Inl (TypeError ([CHR 0x27] @ type_name v @ [CHR 0x27] @ '' object is not iterable''))"

section \<open>Link filter\<close>

text \<open>\<open>s.startswith(p)\<close> and \<open>p in s\<close> on strings.\<close>

definition startswith :: "string \<Rightarrow> string \<Rightarrow> bool" where
  "startswith s p = (take (length p) s = p)"

fun str_contains :: "string \<Rightarrow> string \<Rightarrow> bool" where
  "str_contains [] p = (p = [])"
| "str_contains (c # cs) p = (startswith (c # cs) p \<or> str_contains cs p)"

definition default_patterns :: "string list" where
  "default_patterns = [''/api/'', ''/guide/'', ''/docs/'', ''/reference/'', ''/tutorial/'']"

text \<open>
  \<^verbatim>\<open>
  def should_crawl_link(link, base_url, patterns=None):
      if not link.startswith(base_url):
          return False
      if patterns:
          return any(pattern in link for pattern in patterns)
      default_patterns = ['/api/', '/guide/', '/docs/', '/reference/', '/tutorial/']
      return any(pattern in link for pattern in default_patterns)
  \<close>
  \<open>patterns\<close> is \<open>Optional[List[str]]\<close>; \<open>None\<close> and the empty list are both falsy.
\<close>

definition should_crawl_link :: "string \<Rightarrow> string \<Rightarrow> string list option \<Rightarrow> bool" where
  "should_crawl_link link base_url patterns =
     (if \<not> startswith link base_url then False
      else (case patterns of
              Some (p # ps) \<Rightarrow> list_ex (\<lambda>pattern. str_contains link pattern) (p # ps)
            | _ \<Rightarrow> list_ex (\<lambda>pattern. str_contains link pattern) default_patterns))"

section \<open>Page fetcher adapter\<close>

text \<open>
  The browser engine and the extraction engine are external. They are parameters of the
  model: each call takes the state of the outside world and returns either a raised
  exception or a value, together with the new state of the world.
  \<^item> \<open>AsyncWebCrawler\<close> constructs a crawler instance;
  \<^item> \<open>LLMExtractionStrategy\<close> constructs the extraction strategy;
  \<^item> \<open>arun\<close> is \<open>crawler.arun(url=url, **config)\<close> and returns the library's result object,
    of which the server reads five attributes.
\<close>

record crawl_result =
  metadata :: pyval
  markdown :: pyval
  extracted_content :: pyval
  links :: pyval
  success :: pyval

text \<open>The three entries of the \<open>extraction_config\<close> dictionary.\<close>

datatype 's arun_config =
    Markdown_config
  | Structured_config 's
  | Links_config

record ('w, 'c, 's) externals =
  AsyncWebCrawler :: "'w \<Rightarrow> (py_error + 'c) \<times> 'w"
  LLMExtractionStrategy :: "'w \<Rightarrow> (py_error + 's) \<times> 'w"
  arun :: "'c \<Rightarrow> string \<Rightarrow> 's arun_config \<Rightarrow> 'w \<Rightarrow> (py_error + crawl_result) \<times> 'w"

text \<open>The module's state: the global \<open>crawler\<close> (initially \<open>None\<close>) and the outside world.\<close>

record ('w, 'c) server =
  crawler :: "'c option"
  outside :: 'w

text \<open>
  \<^verbatim>\<open>
  async def init_crawler():
      global crawler
      if crawler is None:
          crawler = AsyncWebCrawler(browser_type="chromium", headless=True, verbose=False)
      return crawler
  \<close>
\<close>

definition init_crawler ::
  "('w, 'c, 's) externals \<Rightarrow> ('w, 'c) server \<Rightarrow> (py_error + 'c) \<times> ('w, 'c) server" where
  "init_crawler ext sv =
     (case crawler sv of
        None \<Rightarrow>
          (case AsyncWebCrawler ext (outside sv) of
             (Inl e, w) \<Rightarrow> (Inl e, sv\<lparr>outside := w\<rparr>)
           | (Inr c, w) \<Rightarrow> (Inr c, sv\<lparr>crawler := Some c, outside := w\<rparr>))
      | Some c \<Rightarrow> (Inr c, sv))"

text \<open>\<open>extraction_config.get(extract_type, extraction_config["markdown"])\<close>.\<close>

definition select_config :: "string \<Rightarrow> 's \<Rightarrow> 's arun_config" where
  "select_config extract_type strategy =
     (if extract_type = ''markdown'' then Markdown_config
      else if extract_type = ''structured'' then Structured_config strategy
      else if extract_type = ''links'' then Links_config
      else Markdown_config)"

text \<open>
  The body of the \<open>try\<close> block of \<open>crawl_documentation\<close>: the crawler is initialised, the
  configuration dictionary is built (which constructs the extraction strategy whatever
  \<open>extract_type\<close> is), the page is crawled, and the result dictionary is built, its
  entries evaluated in the order written.
\<close>

definition crawl_documentation_try ::
  "('w, 'c, 's) externals \<Rightarrow> string \<Rightarrow> string \<Rightarrow> ('w, 'c) server
     \<Rightarrow> (py_error + pydict) \<times> ('w, 'c) server" where
  "crawl_documentation_try ext url extract_type sv =
     (case init_crawler ext sv of
        (Inl e, sv1) \<Rightarrow> (Inl e, sv1)
      | (Inr c, sv1) \<Rightarrow>
          (case LLMExtractionStrategy ext (outside sv1) of
             (Inl e, w2) \<Rightarrow> (Inl e, sv1\<lparr>outside := w2\<rparr>)
           | (Inr strategy, w2) \<Rightarrow>
               (case arun ext c url (select_config extract_type strategy) w2 of
                  (Inl e, w3) \<Rightarrow> (Inl e, sv1\<lparr>outside := w3\<rparr>)
                | (Inr result, w3) \<Rightarrow>
                    (case attr_get (metadata result) ''title'' (PStr []) of
                       Inl e \<Rightarrow> (Inl e, sv1\<lparr>outside := w3\<rparr>)
                     | Inr title \<Rightarrow>
                         (Inr [(''url'', PStr url),
                               (''title'', title),
                               (''content'', if extract_type = ''markdown'' then markdown result
                                             else extracted_content result),
                               (''links'', if extract_type = ''links'' then links result
                                           else PList []),
                               (''metadata'', metadata result),
                               (''success'', success result)],
                          sv1\<lparr>outside := w3\<rparr>)))))"

text \<open>
  \<^verbatim>\<open>
  async def crawl_documentation(url, extract_type="markdown"):
      try:
          ...
      except Exception as e:
          logger.error(f"Error crawling {url}: {str(e)}")
          return {"url": url, "error": str(e), "success": False}
  \<close>
  The handler catches instances of \<open>Exception\<close> only. The log line is not modelled.
\<close>

definition crawl_documentation ::
  "('w, 'c, 's) externals \<Rightarrow> string \<Rightarrow> string \<Rightarrow> ('w, 'c) server
     \<Rightarrow> (py_error + pydict) \<times> ('w, 'c) server" where
  "crawl_documentation ext url extract_type sv =
     (case crawl_documentation_try ext url extract_type sv of
        (Inl e, sv') \<Rightarrow>
          (if is_Exception e
           then (Inr [(''url'', PStr url), (''error'', PStr (str_of e)), (''success'', PBool False)],
                 sv')
           else (Inl e, sv'))
      | (Inr d, sv') \<Rightarrow> (Inr d, sv'))"

section \<open>Knowledge graph\<close>

text \<open>
  A page node is the dictionary \<open>{"title", "concepts", "apis", "depth"}\<close>, an edge the
  dictionary \<open>{"from", "to", "type"}\<close>, and the graph the dictionary
  \<open>{"framework", "base_url", "nodes", "relationships"}\<close>. The \<open>nodes\<close> dictionary is an
  association list in insertion order; an assignment \<open>nodes[url] = node\<close> is
  \<open>AList.update\<close>, which replaces the value of a key that is present and appends otherwise.
\<close>

record page_node =
  node_title :: pyval
  node_concepts :: pyval
  node_apis :: pyval
  node_depth :: int

record edge =
  edge_from :: string
  edge_to :: string
  edge_type :: string

record knowledge_graph =
  kg_framework :: string
  kg_base_url :: string
  kg_nodes :: "(string \<times> page_node) list"
  kg_relationships :: "edge list"

section \<open>Crawl controller\<close>

text \<open>
  The local variables of \<open>extend_knowledge_graph\<close> that the loop changes, and the world.
\<close>

record 'w crawl_state =
  knowledge_graph :: knowledge_graph
  url_queue :: "(string \<times> int) list"
  visited_urls :: "string fset"
  world :: 'w

text \<open>
  The node dictionary of a fetched page. \<open>result.get("content", {})\<close> is the stored value
  when the key is present, whatever it is, and calling \<open>.get\<close> on it raises unless it is
  a dictionary.
\<close>

definition make_node :: "pydict \<Rightarrow> int \<Rightarrow> py_error + page_node" where
  "make_node result current_depth =
     (case attr_get (dict_get_default result ''content'' (PDict [])) ''main_concepts'' (PList []) of
        Inl e \<Rightarrow> Inl e
      | Inr concepts \<Rightarrow>
          (case attr_get (dict_get_default result ''content'' (PDict [])) ''api_methods'' (PList []) of
             Inl e \<Rightarrow> Inl e
           | Inr apis \<Rightarrow>
               Inr \<lparr>node_title = dict_get result ''title'', node_concepts = concepts,
                    node_apis = apis, node_depth = current_depth\<rparr>))"

text \<open>
  \<^verbatim>\<open>
  for link in result.get("links", []):
      if should_crawl_link(link, base_url, patterns):
          url_queue.append((link, current_depth + 1))
          knowledge_graph["relationships"].append(
              {"from": current_url, "to": link, "type": "references"})
  \<close>
  A link that is not a string has no \<open>startswith\<close> method.
\<close>

fun follow_links ::
  "string \<Rightarrow> int \<Rightarrow> string \<Rightarrow> string list option \<Rightarrow> pyval list \<Rightarrow> 'w crawl_state
     \<Rightarrow> py_error + 'w crawl_state" where
  "follow_links current_url current_depth base_url patterns [] st = Inr st"
| "follow_links current_url current_depth base_url patterns (PStr link # rest) st =
     (if should_crawl_link link base_url patterns
      then follow_links current_url current_depth base_url patterns rest
             (st\<lparr>url_queue := url_queue st @ [(link, current_depth + 1)],
                 knowledge_graph := (knowledge_graph st)
                   \<lparr>kg_relationships := kg_relationships (knowledge_graph st) @
                      [\<lparr>edge_from = current_url, edge_to = link, edge_type = ''references''\<rparr>]\<rparr>\<rparr>)
      else follow_links current_url current_depth base_url patterns rest st)"
| "follow_links current_url current_depth base_url patterns (v # rest) st =
     Inl (no_attribute v ''startswith'')"

text \<open>
  One iteration of the \<open>while\<close> loop. The fetch operation \<open>crawl_documentation\<close> is a
  parameter: Python looks the global name up when the call is made. An iteration either
  completes with a new state, or raises, and then only the exception and the world remain.
  The states \<open>st1\<close> to \<open>st5\<close> are the local variables after each statement.
  \<^verbatim>\<open>
  current_url, current_depth = url_queue.pop(0)
  if current_url in visited_urls or current_depth > depth:
      continue
  visited_urls.add(current_url)
  result = await crawl_documentation(current_url, "structured")
  if result.get("success"):
      knowledge_graph["nodes"][current_url] = {...}
      if current_depth < depth:
          for link in result.get("links", []): ...
  \<close>
\<close>

definition loop_body ::
  "(string \<Rightarrow> string \<Rightarrow> 'w \<Rightarrow> (py_error + pydict) \<times> 'w) \<Rightarrow> string \<Rightarrow> int \<Rightarrow> string list option
     \<Rightarrow> 'w crawl_state \<Rightarrow> (py_error \<times> 'w) + 'w crawl_state" where
  "loop_body fetch base_url depth patterns st =
     (case url_queue st of
        [] \<Rightarrow> Inl (IndexError ''pop from empty list'', world st)
      | (current_url, current_depth) # rest \<Rightarrow>
          let st1 = st\<lparr>url_queue := rest\<rparr> in
          if current_url |\<in>| visited_urls st1 \<or> current_depth > depth
          then Inr st1
          else
            let st2 = st1\<lparr>visited_urls := finsert current_url (visited_urls st1)\<rparr> in
            (case fetch current_url ''structured'' (world st2) of
               (Inl e, w) \<Rightarrow> Inl (e, w)
             | (Inr result, w) \<Rightarrow>
                 let st3 = st2\<lparr>world := w\<rparr> in
                 if truthy (dict_get result ''success'')
                 then
                   (case make_node result current_depth of
                      Inl e \<Rightarrow> Inl (e, w)
                    | Inr node \<Rightarrow>
                        let st4 = st3\<lparr>knowledge_graph := (knowledge_graph st3)
                                     \<lparr>kg_nodes := AList.update current_url node
                                        (kg_nodes (knowledge_graph st3))\<rparr>\<rparr> in
                        if current_depth < depth
                        then
                          (case iterate (dict_get_default result ''links'' (PList [])) of
                             Inl e \<Rightarrow> Inl (e, w)
                           | Inr found \<Rightarrow>
                               (case follow_links current_url current_depth base_url patterns
                                       found st4 of
                                  Inl e \<Rightarrow> Inl (e, w)
                                | Inr st5 \<Rightarrow> Inr st5))
                        else Inr st4)
                 else Inr st3))"

text \<open>The loop condition \<open>url_queue and len(visited_urls) < 50\<close>.\<close>

definition continues :: "'w crawl_state \<Rightarrow> bool" where
  "continues st = (url_queue st \<noteq> [] \<and> fcard (visited_urls st) < 50)"

lemma follow_links_visited_urls:
  "follow_links current_url current_depth base_url patterns found st = Inr st'
     \<Longrightarrow> visited_urls st' = visited_urls st \<and> world st' = world st"
  by (induction current_url current_depth base_url patterns found st rule: follow_links.induct)
    (auto split: if_splits)

text \<open>The shapes of a completed iteration.\<close>

lemma loop_body_Inr_cases:
  assumes "loop_body fetch base_url depth patterns st = Inr st'"
  obtains
    (skip) u d rest where "url_queue st = (u, d) # rest" "u |\<in>| visited_urls st \<or> d > depth"
      "st' = st\<lparr>url_queue := rest\<rparr>"
  | (failed) u d rest result w where "url_queue st = (u, d) # rest" "u |\<notin>| visited_urls st" "d \<le> depth"
      "fetch u ''structured'' (world st) = (Inr result, w)"
      "\<not> truthy (dict_get result ''success'')"
      "st' = st\<lparr>url_queue := rest, visited_urls := finsert u (visited_urls st), world := w\<rparr>"
  | (leaf) u d rest result w node where "url_queue st = (u, d) # rest" "u |\<notin>| visited_urls st" "d = depth"
      "fetch u ''structured'' (world st) = (Inr result, w)"
      "truthy (dict_get result ''success'')"
      "make_node result d = Inr node"
      "st' = st\<lparr>url_queue := rest, visited_urls := finsert u (visited_urls st), world := w,
                knowledge_graph := (knowledge_graph st)
                  \<lparr>kg_nodes := AList.update u node (kg_nodes (knowledge_graph st))\<rparr>\<rparr>"
  | (expand) u d rest result w node found where "url_queue st = (u, d) # rest"
      "u |\<notin>| visited_urls st" "d < depth"
      "fetch u ''structured'' (world st) = (Inr result, w)"
      "truthy (dict_get result ''success'')"
      "make_node result d = Inr node"
      "iterate (dict_get_default result ''links'' (PList [])) = Inr found"
      "follow_links u d base_url patterns found
         (st\<lparr>url_queue := rest, visited_urls := finsert u (visited_urls st), world := w,
             knowledge_graph := (knowledge_graph st)
               \<lparr>kg_nodes := AList.update u node (kg_nodes (knowledge_graph st))\<rparr>\<rparr>) = Inr st'"
proof (cases "url_queue st")
  case Nil
  with assms show ?thesis by (simp add: loop_body_def Let_def)
next
  case (Cons e rest)
  obtain u d where e: "e = (u, d)" by (cases e)
  note q = Cons [unfolded e]
  show ?thesis
  proof (cases "u |\<in>| visited_urls st \<or> d > depth")
    case True
    with assms q have "st' = st\<lparr>url_queue := rest\<rparr>"
      by (auto simp add: loop_body_def Let_def)
    with q True show ?thesis by (rule skip)
  next
    case False
    then have nv: "u |\<notin>| visited_urls st" and dd: "d \<le> depth" by auto
    obtain r w where f: "fetch u ''structured'' (world st) = (r, w)"
      by (cases "fetch u ''structured'' (world st)")
    show ?thesis
    proof (cases r)
      case (Inl e)
      with assms q False f show ?thesis by (simp add: loop_body_def Let_def)
    next
      case (Inr result)
      note f' = f [unfolded Inr]
      show ?thesis
      proof (cases "truthy (dict_get result ''success'')")
        case False
        with assms q nv dd f' have
          "st' = st\<lparr>url_queue := rest, visited_urls := finsert u (visited_urls st), world := w\<rparr>"
          by (simp add: loop_body_def Let_def)
        with q nv dd f' False show ?thesis by (rule failed)
      next
        case True
        show ?thesis
        proof (cases "make_node result d")
          case (Inl e)
          with assms q nv dd f' True show ?thesis by (simp add: loop_body_def Let_def)
        next
          case (Inr node)
          show ?thesis
          proof (cases "d < depth")
            case False
            with dd have deq: "d = depth" by simp
            from assms q nv dd f' True Inr False have
              "st' = st\<lparr>url_queue := rest, visited_urls := finsert u (visited_urls st), world := w,
                knowledge_graph := (knowledge_graph st)
                  \<lparr>kg_nodes := AList.update u node (kg_nodes (knowledge_graph st))\<rparr>\<rparr>"
              by (simp add: loop_body_def Let_def)
            with q nv deq f' True Inr show ?thesis by (rule leaf)
          next
            case lt: True
            show ?thesis
            proof (cases "iterate (dict_get_default result ''links'' (PList []))")
              case (Inl e)
              with assms q nv dd f' True Inr lt show ?thesis by (simp add: loop_body_def Let_def)
            next
              case it: (Inr found)
              from assms q nv dd f' True Inr lt it have
                "follow_links u d base_url patterns found
                   (st\<lparr>url_queue := rest, visited_urls := finsert u (visited_urls st), world := w,
                       knowledge_graph := (knowledge_graph st)
                         \<lparr>kg_nodes := AList.update u node (kg_nodes (knowledge_graph st))\<rparr>\<rparr>) = Inr st'"
                by (simp add: loop_body_def Let_def split: sum.splits)
              with q nv lt f' True Inr it show ?thesis by (rule expand)
            qed
          qed
        qed
      qed
    qed
  qed
qed

lemma loop_body_progress:
  assumes "loop_body fetch base_url depth patterns st = Inr st'"
  shows "(visited_urls st' = visited_urls st \<and> Suc (length (url_queue st')) = length (url_queue st))
       \<or> fcard (visited_urls st') = Suc (fcard (visited_urls st))"
  using assms
proof (cases rule: loop_body_Inr_cases)
  case (expand u d rest result w node found)
  from follow_links_visited_urls [OF expand(8)] expand(2) show ?thesis
    by (simp add: fcard_finsert_disjoint)
qed (simp_all add: fcard_finsert_disjoint)

text \<open>
  \<^verbatim>\<open>
  while url_queue and len(visited_urls) < 50:  # Limit to 50 pages
      ...
  \<close>
  The loop returns the state it exits with, or the exception that an iteration raised.
\<close>

function crawl_loop ::
  "(string \<Rightarrow> string \<Rightarrow> 'w \<Rightarrow> (py_error + pydict) \<times> 'w) \<Rightarrow> string \<Rightarrow> int \<Rightarrow> string list option
     \<Rightarrow> 'w crawl_state \<Rightarrow> (py_error \<times> 'w) + 'w crawl_state" where
  "crawl_loop fetch base_url depth patterns st =
     (if continues st
      then (case loop_body fetch base_url depth patterns st of
              Inl raised \<Rightarrow> Inl raised
            | Inr st' \<Rightarrow> crawl_loop fetch base_url depth patterns st')
      else Inr st)"
  by pat_completeness auto

termination
proof (relation "measures [\<lambda>(fetch, base_url, depth, patterns, st). 50 - fcard (visited_urls st),
                           \<lambda>(fetch, base_url, depth, patterns, st). length (url_queue st)]")
  show "wf (measures [\<lambda>(fetch :: string \<Rightarrow> string \<Rightarrow> 'w \<Rightarrow> (py_error + pydict) \<times> 'w,
                        base_url :: string, depth :: int, patterns :: string list option,
                        st :: 'w crawl_state). 50 - fcard (visited_urls st),
                      \<lambda>(fetch, base_url, depth, patterns, st). length (url_queue st)])"
    by simp
next
  fix fetch :: "string \<Rightarrow> string \<Rightarrow> 'w \<Rightarrow> (py_error + pydict) \<times> 'w"
  fix base_url :: string and depth :: int and patterns :: "string list option"
  fix st st' :: "'w crawl_state"
  assume "continues st" and "loop_body fetch base_url depth patterns st = Inr st'"
  then show "((fetch, base_url, depth, patterns, st'), (fetch, base_url, depth, patterns, st))
      \<in> measures [\<lambda>(fetch, base_url, depth, patterns, st). 50 - fcard (visited_urls st),
                   \<lambda>(fetch, base_url, depth, patterns, st). length (url_queue st)]"
    using loop_body_progress [of fetch base_url depth patterns st st']
    by (auto simp: continues_def)
qed

declare crawl_loop.simps [simp del]

text \<open>
  The states at the head of the loop, in order: the state the loop starts in, then the
  state after each completed iteration. The last one is the state the loop exits with, or
  the state at the start of the iteration that raised. The list is an observation of the
  run and has no counterpart in the source.
\<close>

function loop_states ::
  "(string \<Rightarrow> string \<Rightarrow> 'w \<Rightarrow> (py_error + pydict) \<times> 'w) \<Rightarrow> string \<Rightarrow> int \<Rightarrow> string list option
     \<Rightarrow> 'w crawl_state \<Rightarrow> 'w crawl_state list" where
  "loop_states fetch base_url depth patterns st =
     st # (if continues st
           then (case loop_body fetch base_url depth patterns st of
                   Inl raised \<Rightarrow> []
                 | Inr st' \<Rightarrow> loop_states fetch base_url depth patterns st')
           else [])"
  by pat_completeness auto

termination
proof (relation "measures [\<lambda>(fetch, base_url, depth, patterns, st). 50 - fcard (visited_urls st),
                           \<lambda>(fetch, base_url, depth, patterns, st). length (url_queue st)]")
  show "wf (measures [\<lambda>(fetch :: string \<Rightarrow> string \<Rightarrow> 'w \<Rightarrow> (py_error + pydict) \<times> 'w,
                        base_url :: string, depth :: int, patterns :: string list option,
                        st :: 'w crawl_state). 50 - fcard (visited_urls st),
                      \<lambda>(fetch, base_url, depth, patterns, st). length (url_queue st)])"
    by simp
next
  fix fetch :: "string \<Rightarrow> string \<Rightarrow> 'w \<Rightarrow> (py_error + pydict) \<times> 'w"
  fix base_url :: string and depth :: int and patterns :: "string list option"
  fix st st' :: "'w crawl_state"
  assume "continues st" and "loop_body fetch base_url depth patterns st = Inr st'"
  then show "((fetch, base_url, depth, patterns, st'), (fetch, base_url, depth, patterns, st))
      \<in> measures [\<lambda>(fetch, base_url, depth, patterns, st). 50 - fcard (visited_urls st),
                   \<lambda>(fetch, base_url, depth, patterns, st). length (url_queue st)]"
    using loop_body_progress [of fetch base_url depth patterns st st']
    by (auto simp: continues_def)
qed

declare loop_states.simps [simp del]

text \<open>
  An iteration processes the entry it dequeues (marks it visited and fetches it) unless
  the URL is already visited or the entry is deeper than \<open>depth\<close>.
\<close>

definition skips :: "int \<Rightarrow> 'w crawl_state \<Rightarrow> bool" where
  "skips depth st =
     (case url_queue st of
        [] \<Rightarrow> True
      | (current_url, current_depth) # rest \<Rightarrow>
          current_url |\<in>| visited_urls st \<or> current_depth > depth)"

text \<open>The queue entries that the run processes, in the order in which it processes them.\<close>

definition processed_pages ::
  "(string \<Rightarrow> string \<Rightarrow> 'w \<Rightarrow> (py_error + pydict) \<times> 'w) \<Rightarrow> string \<Rightarrow> int \<Rightarrow> string list option
     \<Rightarrow> 'w crawl_state \<Rightarrow> (string \<times> int) list" where
  "processed_pages fetch base_url depth patterns st =
     concat (map (\<lambda>s. if continues s \<and> \<not> skips depth s then take 1 (url_queue s) else [])
               (loop_states fetch base_url depth patterns st))"

text \<open>
  Every entry that is in the queue at some moment of the run, in the order of enqueueing:
  the entries dequeued by the completed iterations, then the queue of the last state.
\<close>

definition enqueued_entries ::
  "(string \<Rightarrow> string \<Rightarrow> 'w \<Rightarrow> (py_error + pydict) \<times> 'w) \<Rightarrow> string \<Rightarrow> int \<Rightarrow> string list option
     \<Rightarrow> 'w crawl_state \<Rightarrow> (string \<times> int) list" where
  "enqueued_entries fetch base_url depth patterns st =
     concat (map (\<lambda>s. take 1 (url_queue s)) (butlast (loop_states fetch base_url depth patterns st)))
       @ url_queue (last (loop_states fetch base_url depth patterns st))"

text \<open>
  \<^verbatim>\<open>
  knowledge_graph = {"framework": framework_name, "base_url": base_url,
                     "nodes": {}, "relationships": []}
  url_queue = [(base_url, 0)]
  visited_urls = set()
  \<close>
\<close>

definition initial_state :: "string \<Rightarrow> string \<Rightarrow> 'w \<Rightarrow> 'w crawl_state" where
  "initial_state framework_name base_url w =
     \<lparr>knowledge_graph = \<lparr>kg_framework = framework_name, kg_base_url = base_url,
                          kg_nodes = [], kg_relationships = []\<rparr>,
      url_queue = [(base_url, 0)],
      visited_urls = {||},
      world = w\<rparr>"

text \<open>
  \<open>extend_knowledge_graph\<close>, with the two module-level functions it calls as parameters.
  It returns the graph or raises, and leaves the world changed.
\<close>

definition extend_knowledge_graph ::
  "('w \<Rightarrow> (py_error + 'c) \<times> 'w) \<Rightarrow> (string \<Rightarrow> string \<Rightarrow> 'w \<Rightarrow> (py_error + pydict) \<times> 'w)
     \<Rightarrow> string \<Rightarrow> string \<Rightarrow> int \<Rightarrow> string list option \<Rightarrow> 'w
     \<Rightarrow> (py_error + knowledge_graph) \<times> 'w" where
  "extend_knowledge_graph init fetch framework_name base_url depth patterns w =
     (case init w of
        (Inl e, w1) \<Rightarrow> (Inl e, w1)
      | (Inr c, w1) \<Rightarrow>
          (case crawl_loop fetch base_url depth patterns (initial_state framework_name base_url w1) of
             Inl (e, w2) \<Rightarrow> (Inl e, w2)
           | Inr st \<Rightarrow> (Inr (knowledge_graph st), world st)))"

text \<open>The tool as the module binds it: the callees are the module's own functions.\<close>

definition extend_knowledge_graph_tool ::
  "('w, 'c, 's) externals \<Rightarrow> string \<Rightarrow> string \<Rightarrow> int \<Rightarrow> string list option \<Rightarrow> ('w, 'c) server
     \<Rightarrow> (py_error + knowledge_graph) \<times> ('w, 'c) server" where
  "extend_knowledge_graph_tool ext framework_name base_url depth patterns sv =
     extend_knowledge_graph (init_crawler ext) (crawl_documentation ext)
       framework_name base_url depth patterns sv"

text \<open>
  To count fetches, the world is paired with a log: the logged fetch operation appends
  the URL it is called with, and the initialisation leaves the log alone.
\<close>

definition logged ::
  "(string \<Rightarrow> string \<Rightarrow> 'w \<Rightarrow> 'r \<times> 'w) \<Rightarrow> string \<Rightarrow> string \<Rightarrow> 'w \<times> string list
     \<Rightarrow> 'r \<times> ('w \<times> string list)" where
  "logged fetch url extract_type wl =
     (case fetch url extract_type (fst wl) of (r, w') \<Rightarrow> (r, (w', snd wl @ [url])))"

definition unlogged :: "('w \<Rightarrow> 'r \<times> 'w) \<Rightarrow> 'w \<times> string list \<Rightarrow> 'r \<times> ('w \<times> string list)" where
  "unlogged init wl = (case init (fst wl) of (r, w') \<Rightarrow> (r, (w', snd wl)))"

definition fetch_log ::
  "('w \<Rightarrow> (py_error + 'c) \<times> 'w) \<Rightarrow> (string \<Rightarrow> string \<Rightarrow> 'w \<Rightarrow> (py_error + pydict) \<times> 'w)
     \<Rightarrow> string \<Rightarrow> string \<Rightarrow> int \<Rightarrow> string list option \<Rightarrow> 'w \<Rightarrow> string list" where
  "fetch_log init fetch framework_name base_url depth patterns w =
     snd (snd (extend_knowledge_graph (unlogged init) (logged fetch)
                 framework_name base_url depth patterns (w, [])))"

text \<open>The links of a page that the \<open>for\<close> loop enqueues when it completes.\<close>

fun accepted_links :: "string \<Rightarrow> string list option \<Rightarrow> pyval list \<Rightarrow> string list" where
  "accepted_links base_url patterns [] = []"
| "accepted_links base_url patterns (PStr link # rest) =
     (if should_crawl_link link base_url patterns
      then link # accepted_links base_url patterns rest
      else accepted_links base_url patterns rest)"
| "accepted_links base_url patterns (v # rest) = []"

section \<open>State predicates\<close>

text \<open>
  Every node of the graph has a recorded depth of at most \<open>depth\<close>.
\<close>

definition depths_bounded :: "int \<Rightarrow> 'w crawl_state \<Rightarrow> bool" where
  "depths_bounded depth st = (\<forall>(u, node) \<in> set (kg_nodes (knowledge_graph st)). node_depth node \<le> depth)"

text \<open>
  The source of every edge of the graph is a key of the nodes mapping.
\<close>

definition edges_from_nodes :: "'w crawl_state \<Rightarrow> bool" where
  "edges_from_nodes st =
     (\<forall>e \<in> set (kg_relationships (knowledge_graph st)).
        edge_from e \<in> fst ` set (kg_nodes (knowledge_graph st)))"

text \<open>
  In a world paired with a fetch log: no URL is logged twice, and every logged URL is in
  the visited set.
\<close>

definition fetch_logged_once :: "('w \<times> string list) crawl_state \<Rightarrow> bool" where
  "fetch_logged_once st =
     (distinct (snd (world st)) \<and> set (snd (world st)) \<subseteq> fset (visited_urls st))"

text \<open>
  The queue of a breadth-first traversal: depths do not decrease along the queue, and no
  entry is more than one level below the first.
\<close>

definition bfs_ordered :: "(string \<times> int) list \<Rightarrow> bool" where
  "bfs_ordered q =
     (sorted (map snd q) \<and>
      (case q of [] \<Rightarrow> True | (u, d) # rest \<Rightarrow> list_all (\<lambda>(u', d'). d' \<le> d + 1) rest))"

text \<open>
  Every entry has depth at least \<open>m\<close>.
\<close>

definition depths_from :: "int \<Rightarrow> (string \<times> int) list \<Rightarrow> bool" where
  "depths_from m q = list_all (\<lambda>(u, d). m \<le> d) q"

text \<open>
  Every entry has depth at most \<open>depth\<close>.
\<close>

definition depths_within :: "int \<Rightarrow> (string \<times> int) list \<Rightarrow> bool" where
  "depths_within depth q = list_all (\<lambda>(u, d). d \<le> depth) q"

text \<open>
  Every entry is deeper than \<open>depth\<close>.
\<close>

definition depths_beyond :: "int \<Rightarrow> (string \<times> int) list \<Rightarrow> bool" where
  "depths_beyond depth q = list_all (\<lambda>(u, d). depth < d) q"

text \<open>
  Every key of the nodes mapping is in the visited set.
\<close>

definition nodes_visited :: "'w crawl_state \<Rightarrow> bool" where
  "nodes_visited st = (fst ` set (kg_nodes (knowledge_graph st)) \<subseteq> fset (visited_urls st))"

text \<open>Every node of the first state is, unchanged, a node of the second.\<close>

definition keeps_nodes :: "'w crawl_state \<Rightarrow> 'w crawl_state \<Rightarrow> bool" where
  "keeps_nodes s s' =
     (\<forall>url node. map_of (kg_nodes (knowledge_graph s)) url = Some node \<longrightarrow>
                 map_of (kg_nodes (knowledge_graph s')) url = Some node)"

text \<open>
  No edge has been recorded, and the queue and the nodes mapping hold at most one entry
  between them.
\<close>

definition never_expanded :: "'w crawl_state \<Rightarrow> bool" where
  "never_expanded st =
     (kg_relationships (knowledge_graph st) = [] \<and>
      length (url_queue st) + length (kg_nodes (knowledge_graph st)) \<le> 1)"

text \<open>
  The dictionary that the exception handler of \<open>crawl_documentation\<close> returns.
\<close>

definition failure_result :: "string \<Rightarrow> py_error \<Rightarrow> pydict" where
  "failure_result url e = [(''url'', PStr url), (''error'', PStr (str_of e)), (''success'', PBool False)]"

section \<open>Worked example\<close>

text \<open>A crawler whose engine refuses every page, for the worked examples.\<close>

definition refusing_engine :: "(unit, unit, unit) externals" where
  "refusing_engine =
     \<lparr>AsyncWebCrawler = (\<lambda>w. (Inr (), w)),
      LLMExtractionStrategy = (\<lambda>w. (Inr (), w)),
      arun = (\<lambda>c url config w. (Inl (Exception ''connection refused''), w))\<rparr>"

text \<open>A crawler whose engine is interrupted from the keyboard.\<close>

definition interrupted_engine :: "(unit, unit, unit) externals" where
  "interrupted_engine =
     \<lparr>AsyncWebCrawler = (\<lambda>w. (Inr (), w)),
      LLMExtractionStrategy = (\<lambda>w. (Inr (), w)),
      arun = (\<lambda>c url config w. (Inl (BaseException ''KeyboardInterrupt''), w))\<rparr>"

text \<open>
  A small documentation site, as a stand-in for \<open>crawl_documentation\<close> in the worked
  examples. The world counts the fetches. The base page \<open>d\<close> links to \<open>a\<close>, \<open>b\<close>, a page of
  another site, and \<open>a\<close> again; \<open>a\<close> links to \<open>b\<close>, to the base page and to \<open>c\<close>; the fetch of
  \<open>c\<close> fails.
\<close>

definition demo_site :: "string \<Rightarrow> string \<Rightarrow> nat \<Rightarrow> (py_error + pydict) \<times> nat" where
  "demo_site url extract_type n =
     (if url = ''d'' then
        (Inr [(''success'', PBool True), (''title'', PStr ''D''),
              (''links'', PList [PStr ''d/api/a'', PStr ''d/api/b'', PStr ''e/api/c'',
                                 PStr ''d/api/a''])],
         n + 1)
      else if url = ''d/api/a'' then
        (Inr [(''success'', PBool True), (''title'', PStr ''A''),
              (''content'', PDict [(''main_concepts'', PList [PStr ''x''])]),
              (''links'', PList [PStr ''d/api/b'', PStr ''d'', PStr ''d/api/c''])],
         n + 1)
      else if url = ''d/api/b'' then
        (Inr [(''success'', PBool True), (''title'', PStr ''B'')], n + 1)
      else
        (Inr [(''url'', PStr url), (''error'', PStr ''timeout''), (''success'', PBool False)],
         n + 1))"

text \<open>
  An initialisation that succeeds and leaves the world alone.
\<close>

definition demo_init :: "nat \<Rightarrow> (py_error + unit) \<times> nat" where
  "demo_init n = (Inr (), n)"

text \<open>
  The graph that the crawl of the example site returns with \<open>depth = 2\<close>, and the state the
  loop exits with.
\<close>

definition demo_graph :: knowledge_graph where
  "demo_graph =
     \<lparr>kg_framework = ''fw'', kg_base_url = ''d'',
      kg_nodes =
        [(''d'', \<lparr>node_title = PStr ''D'', node_concepts = PList [], node_apis = PList [],
                  node_depth = 0\<rparr>),
         (''d/api/a'', \<lparr>node_title = PStr ''A'', node_concepts = PList [PStr ''x''],
                         node_apis = PList [], node_depth = 1\<rparr>),
         (''d/api/b'', \<lparr>node_title = PStr ''B'', node_concepts = PList [], node_apis = PList [],
                         node_depth = 1\<rparr>)],
      kg_relationships =
        [\<lparr>edge_from = ''d'', edge_to = ''d/api/a'', edge_type = ''references''\<rparr>,
         \<lparr>edge_from = ''d'', edge_to = ''d/api/b'', edge_type = ''references''\<rparr>,
         \<lparr>edge_from = ''d'', edge_to = ''d/api/a'', edge_type = ''references''\<rparr>,
         \<lparr>edge_from = ''d/api/a'', edge_to = ''d/api/b'', edge_type = ''references''\<rparr>,
         \<lparr>edge_from = ''d/api/a'', edge_to = ''d/api/c'', edge_type = ''references''\<rparr>]\<rparr>"

definition demo_exit :: "nat crawl_state" where
  "demo_exit =
     \<lparr>knowledge_graph = demo_graph, url_queue = [],
      visited_urls = {|''d'', ''d/api/a'', ''d/api/b'', ''d/api/c''|}, world = 4\<rparr>"

text \<open>
  The states of the example crawl after its first iteration, which processes the base
  page, and after its second, which processes \<open>a\<close>.
\<close>

definition demo_after_base :: "nat crawl_state" where
  "demo_after_base =
     \<lparr>knowledge_graph =
        \<lparr>kg_framework = ''fw'', kg_base_url = ''d'',
         kg_nodes = [(''d'', \<lparr>node_title = PStr ''D'', node_concepts = PList [],
                              node_apis = PList [], node_depth = 0\<rparr>)],
         kg_relationships =
           [\<lparr>edge_from = ''d'', edge_to = ''d/api/a'', edge_type = ''references''\<rparr>,
            \<lparr>edge_from = ''d'', edge_to = ''d/api/b'', edge_type = ''references''\<rparr>,
            \<lparr>edge_from = ''d'', edge_to = ''d/api/a'', edge_type = ''references''\<rparr>]\<rparr>,
      url_queue = [(''d/api/a'', 1), (''d/api/b'', 1), (''d/api/a'', 1)],
      visited_urls = {|''d''|}, world = 1\<rparr>"

definition demo_after_a :: "nat crawl_state" where
  "demo_after_a =
     \<lparr>knowledge_graph =
        \<lparr>kg_framework = ''fw'', kg_base_url = ''d'',
         kg_nodes = [(''d'', \<lparr>node_title = PStr ''D'', node_concepts = PList [],
                              node_apis = PList [], node_depth = 0\<rparr>),
                     (''d/api/a'', \<lparr>node_title = PStr ''A'', node_concepts = PList [PStr ''x''],
                                     node_apis = PList [], node_depth = 1\<rparr>)],
         kg_relationships =
           [\<lparr>edge_from = ''d'', edge_to = ''d/api/a'', edge_type = ''references''\<rparr>,
            \<lparr>edge_from = ''d'', edge_to = ''d/api/b'', edge_type = ''references''\<rparr>,
            \<lparr>edge_from = ''d'', edge_to = ''d/api/a'', edge_type = ''references''\<rparr>,
            \<lparr>edge_from = ''d/api/a'', edge_to = ''d/api/b'', edge_type = ''references''\<rparr>,
            \<lparr>edge_from = ''d/api/a'', edge_to = ''d/api/c'', edge_type = ''references''\<rparr>]\<rparr>,
      url_queue = [(''d/api/b'', 1), (''d/api/a'', 1), (''d/api/b'', 2), (''d/api/c'', 2)],
      visited_urls = {|''d'', ''d/api/a''|}, world = 2\<rparr>"

section \<open>Properties of the link filter\<close>

lemma startswith_prefix: "startswith s p \<longleftrightarrow> prefix p s"
  unfolding startswith_def
  by (metis append_eq_conv_conj prefix_def take_is_prefix)

lemma str_contains_sublist: "str_contains s p \<longleftrightarrow> sublist p s"
  by (induction s) (auto simp: startswith_prefix sublist_Cons_right)

text \<open>
  C3. \<open>should_crawl_link\<close> accepts a link exactly when \<open>base_url\<close> is a literal prefix of
  it (character by character, so case-sensitive) and the link contains one of the
  patterns as a substring: the given patterns when they are provided and non-empty, the
  five default patterns otherwise.
\<close>

theorem should_crawl_link_iff:
  "should_crawl_link link base_url patterns =
     (prefix base_url link \<and>
      (\<exists>p \<in> set (if patterns = None \<or> patterns = Some []
                   then [''/api/'', ''/guide/'', ''/docs/'', ''/reference/'', ''/tutorial/'']
                   else the patterns).
          sublist p link))"
proof (cases patterns)
  case None
  then show ?thesis
    by (simp add: should_crawl_link_def startswith_prefix str_contains_sublist
        default_patterns_def list_ex_iff)
next
  case (Some ps)
  then show ?thesis
    by (cases ps)
      (simp_all add: should_crawl_link_def startswith_prefix str_contains_sublist
        default_patterns_def list_ex_iff)
qed

lemma should_crawl_link_examples:
  "should_crawl_link ''https://x.com/api/foo'' ''https://x.com'' None"
  "\<not> should_crawl_link ''https://other.com/api/foo'' ''https://x.com'' None"
  "should_crawl_link ''https://x.com/blog/foo'' ''https://x.com'' (Some [''/blog/''])"
  "\<not> should_crawl_link ''https://x.com/blog/foo'' ''https://x.com'' (Some [''/api/''])"
  "\<not> should_crawl_link ''https://x.com/API/foo'' ''https://x.com'' None"
  "\<not> should_crawl_link ''https://x.com/api/foo'' ''https://x.com/'' (Some [''/blog/'', ''/docs/''])"
  by code_simp+

section \<open>Properties of the page fetcher adapter\<close>

lemma crawl_documentation_try_Inr:
  assumes "crawl_documentation_try ext url extract_type sv = (Inr d, sv')"
  shows "map_of d ''url'' = Some (PStr url) \<and> map_of d ''title'' \<noteq> None \<and>
         map_of d ''content'' \<noteq> None \<and> map_of d ''links'' \<noteq> None \<and>
         map_of d ''metadata'' \<noteq> None \<and> map_of d ''success'' \<noteq> None \<and>
         (extract_type \<noteq> ''links'' \<longrightarrow> map_of d ''links'' = Some (PList []))"
  using assms unfolding crawl_documentation_try_def
  by (auto split: prod.splits sum.splits)

lemma crawl_documentation_cases:
  obtains (built) d sv' where "crawl_documentation_try ext url extract_type sv = (Inr d, sv')"
      "crawl_documentation ext url extract_type sv = (Inr d, sv')"
  | (caught) e sv' where "crawl_documentation_try ext url extract_type sv = (Inl e, sv')"
      "is_Exception e"
      "crawl_documentation ext url extract_type sv = (Inr (failure_result url e), sv')"
  | (passed) e sv' where "crawl_documentation_try ext url extract_type sv = (Inl e, sv')"
      "\<not> is_Exception e"
      "crawl_documentation ext url extract_type sv = (Inl e, sv')"
proof -
  obtain r sv' where t: "crawl_documentation_try ext url extract_type sv = (r, sv')"
    by (cases "crawl_documentation_try ext url extract_type sv")
  show ?thesis
  proof (cases r)
    case (Inr d)
    with t show ?thesis by (intro built [of d sv']) (simp_all add: crawl_documentation_def)
  next
    case (Inl e)
    show ?thesis
    proof (cases "is_Exception e")
      case True
      with t Inl show ?thesis
        by (intro caught [of e sv']) (simp_all add: crawl_documentation_def failure_result_def)
    next
      case False
      with t Inl show ?thesis
        by (intro passed [of e sv']) (simp_all add: crawl_documentation_def)
    qed
  qed
qed

text \<open>
  C7, as amended. Every dictionary that \<open>crawl_documentation\<close> returns has the fields
  \<open>url\<close> and \<open>success\<close>. It has \<open>title\<close>, \<open>content\<close>, \<open>links\<close> and \<open>metadata\<close> as well when
  the \<open>try\<close> block ran to its end; otherwise the block raised an instance of \<open>Exception\<close>
  and the dictionary is \<open>{"url": url, "error": str(e), "success": False}\<close>. Whenever the
  block raises an instance of \<open>Exception\<close> the function returns that dictionary, and what
  it lets through is never an instance of \<open>Exception\<close>.
\<close>

theorem crawl_documentation_result_fields:
  "(fst (crawl_documentation ext url extract_type sv) = Inr d \<longrightarrow>
      map_of d ''url'' = Some (PStr url) \<and> map_of d ''success'' \<noteq> None \<and>
      ((map_of d ''title'' \<noteq> None \<and> map_of d ''content'' \<noteq> None \<and>
        map_of d ''links'' \<noteq> None \<and> map_of d ''metadata'' \<noteq> None) \<or>
       (\<exists>e'. is_Exception e' \<and> fst (crawl_documentation_try ext url extract_type sv) = Inl e' \<and>
             d = [(''url'', PStr url), (''error'', PStr (str_of e')), (''success'', PBool False)]))) \<and>
   (fst (crawl_documentation_try ext url extract_type sv) = Inl e \<and> is_Exception e \<longrightarrow>
      fst (crawl_documentation ext url extract_type sv) =
        Inr [(''url'', PStr url), (''error'', PStr (str_of e)), (''success'', PBool False)]) \<and>
   (fst (crawl_documentation ext url extract_type sv) = Inl e \<longrightarrow> \<not> is_Exception e)"
proof (cases rule: crawl_documentation_cases [of ext url "extract_type" sv])
  case (built d' sv')
  from crawl_documentation_try_Inr [OF built(1)] built show ?thesis by auto
next
  case (caught e' sv')
  then show ?thesis by (auto simp: failure_result_def)
next
  case (passed e' sv')
  then show ?thesis by auto
qed

theorem crawl_documentation_result_fields_witness:
  "fst (crawl_documentation_try refusing_engine ''https://x.com'' ''markdown''
          \<lparr>crawler = None, outside = ()\<rparr>) = Inl (Exception ''connection refused'') \<and>
   is_Exception (Exception ''connection refused'') \<and>
   fst (crawl_documentation refusing_engine ''https://x.com'' ''markdown''
          \<lparr>crawler = None, outside = ()\<rparr>) =
     Inr [(''url'', PStr ''https://x.com''), (''error'', PStr ''connection refused''),
          (''success'', PBool False)] \<and>
   map_of [(''url'', PStr ''https://x.com''), (''error'', PStr ''connection refused''),
           (''success'', PBool False)] ''url'' = Some (PStr ''https://x.com'') \<and>
   fst (crawl_documentation interrupted_engine ''https://x.com'' ''markdown''
          \<lparr>crawler = None, outside = ()\<rparr>) = Inl (BaseException ''KeyboardInterrupt'') \<and>
   \<not> is_Exception (BaseException ''KeyboardInterrupt'')"
proof -
  have t: "fst (crawl_documentation_try refusing_engine ''https://x.com'' ''markdown''
          \<lparr>crawler = None, outside = ()\<rparr>) = Inl (Exception ''connection refused'')"
    by (simp add: crawl_documentation_try_def init_crawler_def refusing_engine_def select_config_def)
  have i: "fst (crawl_documentation interrupted_engine ''https://x.com'' ''markdown''
          \<lparr>crawler = None, outside = ()\<rparr>) = Inl (BaseException ''KeyboardInterrupt'')"
    by (simp add: crawl_documentation_def crawl_documentation_try_def init_crawler_def
        interrupted_engine_def select_config_def)
  from t crawl_documentation_result_fields [of refusing_engine "''https://x.com''" "''markdown''"
      "\<lparr>crawler = None, outside = ()\<rparr>"
      "[(''url'', PStr ''https://x.com''), (''error'', PStr ''connection refused''),
        (''success'', PBool False)]"
      "Exception ''connection refused''"]
  have r: "fst (crawl_documentation refusing_engine ''https://x.com'' ''markdown''
          \<lparr>crawler = None, outside = ()\<rparr>) =
     Inr [(''url'', PStr ''https://x.com''), (''error'', PStr ''connection refused''),
          (''success'', PBool False)]"
    by simp
  from r crawl_documentation_result_fields [of refusing_engine "''https://x.com''" "''markdown''"
      "\<lparr>crawler = None, outside = ()\<rparr>"
      "[(''url'', PStr ''https://x.com''), (''error'', PStr ''connection refused''),
        (''success'', PBool False)]"
      "Exception ''connection refused''"]
  have u: "map_of [(''url'', PStr ''https://x.com''), (''error'', PStr ''connection refused''),
           (''success'', PBool False)] ''url'' = Some (PStr ''https://x.com'')"
    by blast
  from i crawl_documentation_result_fields [of interrupted_engine "''https://x.com''" "''markdown''"
      "\<lparr>crawler = None, outside = ()\<rparr>" _ "BaseException ''KeyboardInterrupt''"]
  have n: "\<not> is_Exception (BaseException ''KeyboardInterrupt'')"
    by blast
  from t r u i n show ?thesis by simp
qed

text \<open>
  C7, as stated, fails: when the engine raises, the returned dictionary has neither a
  \<open>title\<close> nor a \<open>metadata\<close> field.
\<close>

theorem crawl_documentation_failure_lacks_fields:
  "fst (crawl_documentation refusing_engine ''https://x.com'' ''markdown''
          \<lparr>crawler = None, outside = ()\<rparr>) =
     Inr [(''url'', PStr ''https://x.com''), (''error'', PStr ''connection refused''),
          (''success'', PBool False)] \<and>
   map_of [(''url'', PStr ''https://x.com''), (''error'', PStr ''connection refused''),
           (''success'', PBool False)] ''title'' = None \<and>
   map_of [(''url'', PStr ''https://x.com''), (''error'', PStr ''connection refused''),
           (''success'', PBool False)] ''metadata'' = None"
  by (simp add: crawl_documentation_def crawl_documentation_try_def init_crawler_def
      refusing_engine_def select_config_def)

text \<open>
  The module's own \<open>crawl_documentation\<close>, asked for \<open>"structured"\<close> content, returns no
  links, so \<open>extend_knowledge_graph\<close> as the module binds it never enqueues a link: the
  graph it returns has no edge and at most the node of the base URL.
\<close>

lemma crawl_documentation_structured_links:
  assumes "crawl_documentation ext url ''structured'' sv = (Inr d, sv')"
  shows "iterate (dict_get_default d ''links'' (PList [])) = Inr []"
proof (cases rule: crawl_documentation_cases [of ext url "''structured''" sv])
  case (built d' sv'')
  with crawl_documentation_try_Inr [OF built(1)] assms show ?thesis
    by (simp add: dict_get_default_def)
next
  case (caught e sv'')
  with assms show ?thesis by (auto simp: failure_result_def dict_get_default_def)
next
  case (passed e sv'')
  with assms show ?thesis by simp
qed

section \<open>Properties of one iteration and of the loop\<close>

lemma follow_links_appends:
  "follow_links current_url current_depth base_url patterns found st = Inr st' \<Longrightarrow>
     url_queue st' = url_queue st @
        map (\<lambda>link. (link, current_depth + 1)) (accepted_links base_url patterns found) \<and>
     kg_relationships (knowledge_graph st') = kg_relationships (knowledge_graph st) @
        map (\<lambda>link. \<lparr>edge_from = current_url, edge_to = link, edge_type = ''references''\<rparr>)
          (accepted_links base_url patterns found) \<and>
     kg_nodes (knowledge_graph st') = kg_nodes (knowledge_graph st) \<and>
     kg_framework (knowledge_graph st') = kg_framework (knowledge_graph st) \<and>
     kg_base_url (knowledge_graph st') = kg_base_url (knowledge_graph st) \<and>
     visited_urls st' = visited_urls st \<and>
     world st' = world st"
proof (induction current_url current_depth base_url patterns found st
    rule: follow_links.induct)
  case (2 current_url current_depth base_url patterns link rest st)
  show ?case
  proof (cases "should_crawl_link link base_url patterns")
    case True
    with 2 show ?thesis by simp
  next
    case False
    with 2 show ?thesis by simp
  qed
qed simp_all

lemma make_node_depth: "make_node result current_depth = Inr node \<Longrightarrow> node_depth node = current_depth"
  by (auto simp: make_node_def split: sum.splits)

text \<open>
  A completed iteration, by what it leaves behind: it skipped the entry, or it fetched the
  page without success, or it stored a node and enqueued the accepted links \<open>new\<close>.
\<close>

lemma loop_body_Inr_shape:
  assumes "loop_body fetch base_url depth patterns st = Inr st'"
  obtains
    (skip) u d rest where "url_queue st = (u, d) # rest" "u |\<in>| visited_urls st \<or> d > depth"
      "st' = st\<lparr>url_queue := rest\<rparr>"
  | (failed) u d rest result w where "url_queue st = (u, d) # rest" "u |\<notin>| visited_urls st" "d \<le> depth"
      "fetch u ''structured'' (world st) = (Inr result, w)"
      "\<not> truthy (dict_get result ''success'')"
      "st' = st\<lparr>url_queue := rest, visited_urls := finsert u (visited_urls st), world := w\<rparr>"
  | (stored) u d rest result w node new where "url_queue st = (u, d) # rest"
      "u |\<notin>| visited_urls st" "d \<le> depth"
      "fetch u ''structured'' (world st) = (Inr result, w)"
      "truthy (dict_get result ''success'')"
      "node_depth node = d"
      "d < depth \<or> new = []"
      "url_queue st' = rest @ map (\<lambda>link. (link, d + 1)) new"
      "visited_urls st' = finsert u (visited_urls st)"
      "world st' = w"
      "kg_nodes (knowledge_graph st') = AList.update u node (kg_nodes (knowledge_graph st))"
      "kg_relationships (knowledge_graph st') = kg_relationships (knowledge_graph st) @
         map (\<lambda>link. \<lparr>edge_from = u, edge_to = link, edge_type = ''references''\<rparr>) new"
      "kg_framework (knowledge_graph st') = kg_framework (knowledge_graph st)"
      "kg_base_url (knowledge_graph st') = kg_base_url (knowledge_graph st)"
  using assms
proof (cases rule: loop_body_Inr_cases)
  case (skip u d rest)
  then show ?thesis by (rule that(1))
next
  case (failed u d rest result w)
  then show ?thesis by (rule that(2))
next
  case (leaf u d rest result w node)
  show ?thesis
  proof (rule that(3) [of u d rest result w node "[]"])
    show "node_depth node = d" using leaf(6) by (rule make_node_depth)
  qed (use leaf in simp_all)
next
  case (expand u d rest result w node found)
  note fl = follow_links_appends [OF expand(8)]
  show ?thesis
  proof (rule that(3) [of u d rest result w node "accepted_links base_url patterns found"])
    show "node_depth node = d" using expand(6) by (rule make_node_depth)
  qed (use expand fl in simp_all)
qed

text \<open>An iteration that raises leaves the world as it was, or as the fetch left it.\<close>

lemma loop_body_Inl_world:
  assumes "loop_body fetch base_url depth patterns st = Inl (e, w)"
  shows "(url_queue st = [] \<and> w = world st) \<or>
         (\<exists>u d rest r. url_queue st = (u, d) # rest \<and> u |\<notin>| visited_urls st \<and> d \<le> depth \<and>
            fetch u ''structured'' (world st) = (r, w))"
proof (cases "url_queue st")
  case Nil
  with assms show ?thesis by (simp add: loop_body_def Let_def)
next
  case (Cons a rest)
  obtain u d where a: "a = (u, d)" by (cases a)
  obtain r w' where f: "fetch u ''structured'' (world st) = (r, w')"
    by (cases "fetch u ''structured'' (world st)")
  from assms Cons a f have "u |\<notin>| visited_urls st \<and> d \<le> depth \<and> w' = w"
    by (auto simp: loop_body_def Let_def split: if_splits sum.splits)
  with Cons a f show ?thesis by auto
qed

lemma loop_body_skips_visited:
  assumes "url_queue st = (u, d) # rest" "u |\<in>| visited_urls st"
  shows "loop_body fetch base_url depth patterns st = Inr (st\<lparr>url_queue := rest\<rparr>)"
  using assms by (simp add: loop_body_def Let_def)

lemma loop_body_failed_fetch:
  assumes "url_queue st = (url, d) # rest" "url |\<notin>| visited_urls st" "d \<le> depth"
    and "fetch url ''structured'' (world st) = (Inr result, w')"
    and "\<not> truthy (dict_get result ''success'')"
  shows "loop_body fetch base_url depth patterns st =
           Inr (st\<lparr>url_queue := rest, visited_urls := finsert url (visited_urls st), world := w'\<rparr>)"
  using assms by (simp add: loop_body_def Let_def)

lemma crawl_loop_exit: "\<not> continues st \<Longrightarrow> crawl_loop fetch base_url depth patterns st = Inr st"
  by (simp add: crawl_loop.simps [of fetch base_url depth patterns st])

lemma crawl_loop_step:
  "continues st \<Longrightarrow> loop_body fetch base_url depth patterns st = Inr st' \<Longrightarrow>
     crawl_loop fetch base_url depth patterns st = crawl_loop fetch base_url depth patterns st'"
  by (simp add: crawl_loop.simps [of fetch base_url depth patterns st])

text \<open>A property that every iteration preserves holds when the loop exits.\<close>

lemma crawl_loop_invariant:
  assumes "crawl_loop fetch base_url depth patterns st = Inr st'"
    and "I st"
    and "\<And>s s'. I s \<Longrightarrow> continues s \<Longrightarrow> loop_body fetch base_url depth patterns s = Inr s' \<Longrightarrow> I s'"
  shows "I st' \<and> \<not> continues st'"
  using assms
proof (induction fetch base_url depth patterns st rule: crawl_loop.induct)
  case (1 fetch base_url depth patterns st)
  show ?case
  proof (cases "continues st")
    case False
    with "1.prems" show ?thesis by (simp add: crawl_loop.simps)
  next
    case True
    with "1.prems"(1) obtain s where s: "loop_body fetch base_url depth patterns st = Inr s"
      and r: "crawl_loop fetch base_url depth patterns s = Inr st'"
      by (auto simp: crawl_loop.simps [of fetch base_url depth patterns st] split: sum.splits)
    from "1.prems"(3) [OF "1.prems"(2) True s] have "I s" .
    with "1.IH" [OF True s r] "1.prems"(3) show ?thesis by blast
  qed
qed

text \<open>When the loop raises, it does so in an iteration that starts in a state with the property.\<close>

lemma crawl_loop_raises:
  assumes "crawl_loop fetch base_url depth patterns st = Inl raised"
    and "I st"
    and "\<And>s s'. I s \<Longrightarrow> continues s \<Longrightarrow> loop_body fetch base_url depth patterns s = Inr s' \<Longrightarrow> I s'"
  shows "\<exists>s. I s \<and> continues s \<and> loop_body fetch base_url depth patterns s = Inl raised"
  using assms
proof (induction fetch base_url depth patterns st rule: crawl_loop.induct)
  case (1 fetch base_url depth patterns st)
  show ?case
  proof (cases "continues st")
    case False
    with "1.prems" show ?thesis by (simp add: crawl_loop.simps)
  next
    case True
    show ?thesis
    proof (cases "loop_body fetch base_url depth patterns st")
      case (Inl ew)
      with True "1.prems"(1) have "ew = raised"
        by (simp add: crawl_loop.simps [of fetch base_url depth patterns st])
      with Inl True "1.prems"(2) show ?thesis by blast
    next
      case (Inr s)
      with True "1.prems"(1) have r: "crawl_loop fetch base_url depth patterns s = Inl raised"
        by (simp add: crawl_loop.simps [of fetch base_url depth patterns st])
      from "1.prems"(3) [OF "1.prems"(2) True Inr] have "I s" .
      with "1.IH" [OF True Inr r] "1.prems"(3) show ?thesis by blast
    qed
  qed
qed

lemma loop_states_unfold:
  "loop_states fetch base_url depth patterns st =
     st # (if continues st
           then (case loop_body fetch base_url depth patterns st of
                   Inl raised \<Rightarrow> []
                 | Inr st' \<Rightarrow> loop_states fetch base_url depth patterns st')
           else [])"
  by (rule loop_states.simps)

lemma loop_states_not_Nil: "loop_states fetch base_url depth patterns st \<noteq> []"
  by (subst loop_states_unfold) simp

text \<open>A property that every iteration preserves holds at the head of every iteration.\<close>

lemma loop_states_invariant:
  assumes "I st"
    and "s \<in> set (loop_states fetch base_url depth patterns st)"
    and "\<And>s s'. I s \<Longrightarrow> continues s \<Longrightarrow> loop_body fetch base_url depth patterns s = Inr s' \<Longrightarrow> I s'"
  shows "I s"
  using assms
proof (induction fetch base_url depth patterns st rule: loop_states.induct)
  case (1 fetch base_url depth patterns st)
  show ?case
  proof (cases "s = st")
    case True
    with "1.prems"(1) show ?thesis by simp
  next
    case False
    note eq = loop_states_unfold [of fetch base_url depth patterns st]
    note mem = "1.prems"(2) [unfolded eq]
    from mem False have c: "continues st"
      by (cases "continues st") simp_all
    with mem False obtain st' where
      b: "loop_body fetch base_url depth patterns st = Inr st'"
      and m: "s \<in> set (loop_states fetch base_url depth patterns st')"
      by (cases "loop_body fetch base_url depth patterns st") simp_all
    have st': "I st'" by (rule "1.prems"(3) [OF "1.prems"(1) c b])
    show ?thesis by (rule "1.IH" [OF c b st' m]) (rule "1.prems"(3))
  qed
qed

text \<open>
  The loop exits with the last of the head states, and every earlier head state satisfies
  the loop condition.
\<close>

lemma crawl_loop_last_state:
  assumes "crawl_loop fetch base_url depth patterns st = Inr st'"
  shows "last (loop_states fetch base_url depth patterns st) = st' \<and>
         list_all continues (butlast (loop_states fetch base_url depth patterns st))"
  using assms
proof (induction fetch base_url depth patterns st rule: crawl_loop.induct)
  case (1 fetch base_url depth patterns st)
  show ?case
  proof (cases "continues st")
    case False
    with "1.prems" have "st' = st"
      by (simp add: crawl_loop.simps [of fetch base_url depth patterns st])
    moreover from False have "loop_states fetch base_url depth patterns st = [st]"
      by (simp add: loop_states_unfold [of fetch base_url depth patterns st])
    ultimately show ?thesis by simp
  next
    case True
    with "1.prems" obtain s where s: "loop_body fetch base_url depth patterns st = Inr s"
      and r: "crawl_loop fetch base_url depth patterns s = Inr st'"
      by (auto simp: crawl_loop.simps [of fetch base_url depth patterns st] split: sum.splits)
    have ne: "loop_states fetch base_url depth patterns s \<noteq> []"
      by (subst loop_states_unfold) simp
    from "1.IH" [OF True s r] True s ne show ?thesis
      by (simp add: loop_states_unfold [of fetch base_url depth patterns st])
  qed
qed

lemma initial_state_simps:
  "knowledge_graph (initial_state framework_name base_url w) =
     \<lparr>kg_framework = framework_name, kg_base_url = base_url, kg_nodes = [], kg_relationships = []\<rparr>"
  "url_queue (initial_state framework_name base_url w) = [(base_url, 0)]"
  "visited_urls (initial_state framework_name base_url w) = {||}"
  "world (initial_state framework_name base_url w) = w"
  by (simp_all add: initial_state_def)

lemma continues_initial_state: "continues (initial_state framework_name base_url w)"
  by (simp add: continues_def initial_state_simps fcard_fempty)

text \<open>What \<open>extend_knowledge_graph\<close> returns is the graph of the state the loop exits with.\<close>

lemma extend_knowledge_graph_Inr:
  assumes "fst (extend_knowledge_graph init fetch framework_name base_url depth patterns w) = Inr g"
  obtains c w1 st where "init w = (Inr c, w1)"
    "crawl_loop fetch base_url depth patterns (initial_state framework_name base_url w1) = Inr st"
    "g = knowledge_graph st"
proof -
  obtain r w1 where i: "init w = (r, w1)" by (cases "init w")
  show ?thesis
  proof (cases r)
    case (Inl e)
    with assms i show ?thesis by (simp add: extend_knowledge_graph_def)
  next
    case (Inr c)
    show ?thesis
    proof (cases "crawl_loop fetch base_url depth patterns (initial_state framework_name base_url w1)")
      case (Inl ew)
      with assms i Inr show ?thesis
        by (simp add: extend_knowledge_graph_def split: prod.splits)
    next
      case st: (Inr st)
      with assms i Inr have "g = knowledge_graph st"
        by (simp add: extend_knowledge_graph_def)
      with i Inr st show ?thesis by (auto intro: that)
    qed
  qed
qed

section \<open>The worked example, evaluated\<close>

lemma demo_loop:
  "crawl_loop demo_site ''d'' 2 None (initial_state ''fw'' ''d'' 0) = Inr demo_exit"
  by code_simp

lemma demo_run:
  "extend_knowledge_graph demo_init demo_site ''fw'' ''d'' 2 None 0 = (Inr demo_graph, 4)"
  by code_simp

lemma demo_fetch_log:
  "fetch_log demo_init demo_site ''fw'' ''d'' 2 None 0 = [''d'', ''d/api/a'', ''d/api/b'', ''d/api/c'']"
  by code_simp

lemma demo_logged_exit:
  "\<lparr>knowledge_graph = demo_graph, url_queue = [],
    visited_urls = {|''d'', ''d/api/a'', ''d/api/b'', ''d/api/c''|},
    world = (4, [''d'', ''d/api/a'', ''d/api/b'', ''d/api/c''])\<rparr>
     \<in> set (loop_states (logged demo_site) ''d'' 2 None (initial_state ''fw'' ''d'' (0, [])))"
  by code_simp

lemma demo_head_states:
  "initial_state ''fw'' ''d'' 0
     \<in> set (butlast (loop_states demo_site ''d'' 2 None (initial_state ''fw'' ''d'' 0)))"
  "demo_exit \<in> set (loop_states demo_site ''d'' 2 None (initial_state ''fw'' ''d'' 0))"
  "length (loop_states demo_site ''d'' 2 None (initial_state ''fw'' ''d'' 0)) = 7"
  "map_of (kg_nodes (knowledge_graph
     (loop_states demo_site ''d'' 2 None (initial_state ''fw'' ''d'' 0) ! 2))) ''d/api/a''
     = Some \<lparr>node_title = PStr ''A'', node_concepts = PList [PStr ''x''],
              node_apis = PList [], node_depth = 1\<rparr>"
  by code_simp+

lemma demo_iterations:
  "loop_body demo_site ''d'' 2 None (initial_state ''fw'' ''d'' 0) = Inr demo_after_base"
  "loop_body demo_site ''d'' 2 None demo_after_base = Inr demo_after_a"
  "accepted_links ''d'' None [PStr ''d/api/b'', PStr ''d'', PStr ''d/api/c'']
     = [''d/api/b'', ''d/api/c'']"
  "processed_pages (logged demo_site) ''d'' 2 None (initial_state ''fw'' ''d'' (0, [])) =
     [(''d'', 0), (''d/api/a'', 1), (''d/api/b'', 1), (''d/api/c'', 2)]"
  by code_simp+

lemma demo_processed:
  "processed_pages demo_site ''d'' 2 None (initial_state ''fw'' ''d'' 0) =
     [(''d'', 0), (''d/api/a'', 1), (''d/api/b'', 1), (''d/api/c'', 2)]"
  by code_simp

lemma demo_enqueued:
  "enqueued_entries demo_site ''d'' 2 None (initial_state ''fw'' ''d'' 0) =
     [(''d'', 0), (''d/api/a'', 1), (''d/api/b'', 1), (''d/api/a'', 1), (''d/api/b'', 2), (''d/api/c'', 2)]"
  by code_simp

section \<open>Each URL is fetched at most once\<close>

lemma logged_snd:
  "logged fetch url extract_type wl = (r, wl') \<Longrightarrow> snd wl' = snd wl @ [url]"
  by (auto simp: logged_def split: prod.splits)

lemma fetch_logged_once_step:
  assumes "fetch_logged_once s" "loop_body (logged fetch) base_url depth patterns s = Inr s'"
  shows "fetch_logged_once s'"
  using assms(2)
proof (cases rule: loop_body_Inr_shape)
  case (skip u d rest)
  with assms(1) show ?thesis by (simp add: fetch_logged_once_def)
next
  case (failed u d rest result w)
  from logged_snd [OF failed(4)] failed(2,6) assms(1) show ?thesis
    by (auto simp: fetch_logged_once_def)
next
  case (stored u d rest result w node new)
  from logged_snd [OF stored(4)] stored(2,9,10) assms(1) show ?thesis
    by (auto simp: fetch_logged_once_def)
qed

lemma fetch_logged_once_raise:
  assumes "fetch_logged_once s" "continues s"
    "loop_body (logged fetch) base_url depth patterns s = Inl (e, wl)"
  shows "distinct (snd wl)"
proof -
  from loop_body_Inl_world [OF assms(3)] assms(2)
  obtain u r where "u |\<notin>| visited_urls s"
    "logged fetch u ''structured'' (world s) = (r, wl)"
    by (auto simp: continues_def)
  with logged_snd [of fetch u "''structured''" "world s" r wl] assms(1)
  show ?thesis by (auto simp: fetch_logged_once_def)
qed

lemma distinct_count_list: "distinct xs \<Longrightarrow> count_list xs x \<le> 1"
  by (induction xs) auto

lemma fetch_log_distinct:
  "distinct (fetch_log init fetch framework_name base_url depth patterns w)"
proof -
  obtain r w1 where i: "init w = (r, w1)" by (cases "init w")
  then have ui: "unlogged init (w, []) = (r, (w1, []))" by (simp add: unlogged_def)
  show ?thesis
  proof (cases r)
    case (Inl e)
    with ui show ?thesis by (simp add: fetch_log_def extend_knowledge_graph_def)
  next
    case (Inr c)
    let ?st0 = "initial_state framework_name base_url (w1, [])"
    have st0: "fetch_logged_once ?st0"
      by (simp add: fetch_logged_once_def initial_state_simps)
    show ?thesis
    proof (cases "crawl_loop (logged fetch) base_url depth patterns ?st0")
      case raised: (Inl ew)
      obtain e wl where ew: "ew = (e, wl)" by (cases ew)
      from raised st0 have "\<exists>s. fetch_logged_once s \<and> continues s \<and>
          loop_body (logged fetch) base_url depth patterns s = Inl ew"
        by (rule crawl_loop_raises) (rule fetch_logged_once_step)
      then obtain s where "fetch_logged_once s" "continues s"
        "loop_body (logged fetch) base_url depth patterns s = Inl ew"
        by blast
      with ew have "distinct (snd wl)" by (auto intro: fetch_logged_once_raise)
      with ui Inr raised ew show ?thesis
        by (simp add: fetch_log_def extend_knowledge_graph_def)
    next
      case returned: (Inr st)
      from returned st0 have "fetch_logged_once st \<and> \<not> continues st"
        by (rule crawl_loop_invariant) (rule fetch_logged_once_step)
      with ui Inr returned show ?thesis
        by (simp add: fetch_log_def extend_knowledge_graph_def fetch_logged_once_def)
    qed
  qed
qed

text \<open>
  C1. In one invocation of \<open>extend_knowledge_graph\<close>, whether it returns or raises, the
  fetch operation is called at most once on each URL. An iteration that dequeues a URL
  of the visited set completes without a fetch: it only removes the entry from the queue.
  And at the head of every iteration, every URL fetched so far is in the visited set.
\<close>

theorem fetched_at_most_once:
  "count_list (fetch_log init fetch framework_name base_url depth patterns w) url \<le> 1 \<and>
   (url_queue st = (url, d) # rest \<and> url |\<in>| visited_urls st \<longrightarrow>
      loop_body fetch base_url depth patterns st = Inr (st\<lparr>url_queue := rest\<rparr>)) \<and>
   (s \<in> set (loop_states (logged fetch) base_url depth patterns
                (initial_state framework_name base_url (w', []))) \<longrightarrow>
      set (snd (world s)) \<subseteq> fset (visited_urls s))"
proof (intro conjI impI)
  have "distinct (fetch_log init fetch framework_name base_url depth patterns w)"
    by (rule fetch_log_distinct)
  then show "count_list (fetch_log init fetch framework_name base_url depth patterns w) url \<le> 1"
    by (rule distinct_count_list)
next
  assume "url_queue st = (url, d) # rest \<and> url |\<in>| visited_urls st"
  then show "loop_body fetch base_url depth patterns st = Inr (st\<lparr>url_queue := rest\<rparr>)"
    by (auto intro: loop_body_skips_visited)
next
  assume mem: "s \<in> set (loop_states (logged fetch) base_url depth patterns
                (initial_state framework_name base_url (w', [])))"
  have "fetch_logged_once (initial_state framework_name base_url (w', []))"
    by (simp add: fetch_logged_once_def initial_state_simps)
  then have "fetch_logged_once s" using mem
    by (rule loop_states_invariant) (rule fetch_logged_once_step)
  then show "set (snd (world s)) \<subseteq> fset (visited_urls s)"
    by (simp add: fetch_logged_once_def)
qed

theorem fetched_at_most_once_witness:
  "count_list (fetch_log demo_init demo_site ''fw'' ''d'' 2 None 0) ''d/api/a'' \<le> 1 \<and>
   fetch_log demo_init demo_site ''fw'' ''d'' 2 None 0 = [''d'', ''d/api/a'', ''d/api/b'', ''d/api/c''] \<and>
   url_queue \<lparr>knowledge_graph = demo_graph, url_queue = [(''d/api/a'', 1), (''d/api/c'', 2)],
              visited_urls = {|''d'', ''d/api/a''|}, world = 2\<rparr>
     = (''d/api/a'', 1) # [(''d/api/c'', 2)] \<and>
   ''d/api/a'' |\<in>| visited_urls \<lparr>knowledge_graph = demo_graph,
              url_queue = [(''d/api/a'', 1), (''d/api/c'', 2)],
              visited_urls = {|''d'', ''d/api/a''|}, world = (2::nat)\<rparr> \<and>
   loop_body demo_site ''d'' 2 None
     \<lparr>knowledge_graph = demo_graph, url_queue = [(''d/api/a'', 1), (''d/api/c'', 2)],
      visited_urls = {|''d'', ''d/api/a''|}, world = 2\<rparr>
     = Inr \<lparr>knowledge_graph = demo_graph, url_queue = [(''d/api/c'', 2)],
            visited_urls = {|''d'', ''d/api/a''|}, world = 2\<rparr> \<and>
   \<lparr>knowledge_graph = demo_graph, url_queue = [],
    visited_urls = {|''d'', ''d/api/a'', ''d/api/b'', ''d/api/c''|},
    world = (4, [''d'', ''d/api/a'', ''d/api/b'', ''d/api/c''])\<rparr>
     \<in> set (loop_states (logged demo_site) ''d'' 2 None (initial_state ''fw'' ''d'' (0, []))) \<and>
   set [''d'', ''d/api/a'', ''d/api/b'', ''d/api/c'']
     \<subseteq> fset {|''d'', ''d/api/a'', ''d/api/b'', ''d/api/c''|}"
  using fetched_at_most_once [where init = demo_init and fetch = demo_site
      and framework_name = "''fw''" and base_url = "''d''" and depth = 2 and patterns = None
      and w = 0 and url = "''d/api/a''" and d = 1 and rest = "[(''d/api/c'', 2)]"
      and st = "\<lparr>knowledge_graph = demo_graph, url_queue = [(''d/api/a'', 1), (''d/api/c'', 2)],
        visited_urls = {|''d'', ''d/api/a''|}, world = 2\<rparr>"
      and w' = 0
      and s = "\<lparr>knowledge_graph = demo_graph, url_queue = [],
        visited_urls = {|''d'', ''d/api/a'', ''d/api/b'', ''d/api/c''|},
        world = (4, [''d'', ''d/api/a'', ''d/api/b'', ''d/api/c''])\<rparr>"]
    demo_logged_exit
  by (simp add: demo_fetch_log)

section \<open>The page cap\<close>

lemma loop_body_fcard:
  assumes "continues s" "loop_body fetch base_url depth patterns s = Inr s'"
  shows "fcard (visited_urls s') \<le> 50"
  using loop_body_progress [OF assms(2)] assms(1) by (auto simp: continues_def)

text \<open>
  C2. From the initial state of a crawl, the visited set never holds more than 50 URLs at
  the head of an iteration, whatever the fetches return. When the loop exits, the visited
  set holds at most 50 URLs and the queue is empty or the count is exactly 50; the exit
  state is the first head state at which this holds, since every head state before it has
  a non-empty queue and fewer than 50 visited URLs.
\<close>

theorem visited_urls_at_most_50:
  "(\<forall>s \<in> set (loop_states fetch base_url depth patterns (initial_state framework_name base_url w)).
       fcard (visited_urls s) \<le> 50) \<and>
   (crawl_loop fetch base_url depth patterns (initial_state framework_name base_url w) = Inr st' \<longrightarrow>
       fcard (visited_urls st') \<le> 50 \<and>
       (url_queue st' = [] \<or> fcard (visited_urls st') = 50) \<and>
       last (loop_states fetch base_url depth patterns (initial_state framework_name base_url w)) = st' \<and>
       (\<forall>s \<in> set (butlast (loop_states fetch base_url depth patterns
                              (initial_state framework_name base_url w))).
           url_queue s \<noteq> [] \<and> fcard (visited_urls s) < 50))"
proof (intro conjI ballI impI)
  let ?init = "initial_state framework_name base_url w"
  have init: "fcard (visited_urls ?init) \<le> 50" by (simp add: initial_state_def fcard_fempty)
  {
    fix s assume "s \<in> set (loop_states fetch base_url depth patterns ?init)"
    with init show "fcard (visited_urls s) \<le> 50"
      by (rule loop_states_invariant [where I = "\<lambda>s. fcard (visited_urls s) \<le> 50"])
        (rule loop_body_fcard)
  }
  assume run: "crawl_loop fetch base_url depth patterns ?init = Inr st'"
  from run init have fin: "fcard (visited_urls st') \<le> 50 \<and> \<not> continues st'"
    by (rule crawl_loop_invariant [where I = "\<lambda>s. fcard (visited_urls s) \<le> 50"])
      (rule loop_body_fcard)
  then show "fcard (visited_urls st') \<le> 50" by simp
  from fin show "url_queue st' = [] \<or> fcard (visited_urls st') = 50"
    by (auto simp: continues_def)
  from crawl_loop_last_state [OF run] show "last (loop_states fetch base_url depth patterns ?init) = st'"
    by simp
  fix s assume "s \<in> set (butlast (loop_states fetch base_url depth patterns ?init))"
  with crawl_loop_last_state [OF run] have "continues s" by (simp add: list_all_iff)
  then show "url_queue s \<noteq> []" and "fcard (visited_urls s) < 50" by (simp_all add: continues_def)
qed

theorem visited_urls_at_most_50_witness:
  "crawl_loop demo_site ''d'' 2 None (initial_state ''fw'' ''d'' 0) = Inr demo_exit \<and>
   fcard (visited_urls demo_exit) \<le> 50 \<and>
   (url_queue demo_exit = [] \<or> fcard (visited_urls demo_exit) = 50) \<and>
   last (loop_states demo_site ''d'' 2 None (initial_state ''fw'' ''d'' 0)) = demo_exit \<and>
   demo_exit \<in> set (loop_states demo_site ''d'' 2 None (initial_state ''fw'' ''d'' 0)) \<and>
   initial_state ''fw'' ''d'' 0
     \<in> set (butlast (loop_states demo_site ''d'' 2 None (initial_state ''fw'' ''d'' 0))) \<and>
   url_queue (initial_state ''fw'' ''d'' (0::nat)) \<noteq> [] \<and>
   fcard (visited_urls (initial_state ''fw'' ''d'' (0::nat))) < 50"
proof -
  note inst = visited_urls_at_most_50 [where fetch = demo_site and base_url = "''d''"
      and depth = 2 and patterns = None and framework_name = "''fw''" and w = 0
      and st' = demo_exit]
  from inst demo_loop have
    "fcard (visited_urls demo_exit) \<le> 50"
    "url_queue demo_exit = [] \<or> fcard (visited_urls demo_exit) = 50"
    "last (loop_states demo_site ''d'' 2 None (initial_state ''fw'' ''d'' 0)) = demo_exit"
    by simp_all
  moreover from inst demo_loop demo_head_states(1) have
    "url_queue (initial_state ''fw'' ''d'' (0::nat)) \<noteq> [] \<and>
     fcard (visited_urls (initial_state ''fw'' ''d'' (0::nat))) < 50"
    by blast
  ultimately show ?thesis using demo_loop demo_head_states(1,2) by simp
qed

section \<open>Breadth-first order of the queue\<close>

lemma bfs_ordered_Cons:
  "bfs_ordered ((u, d) # rest) \<longleftrightarrow>
     sorted (map snd rest) \<and> (\<forall>(u', d') \<in> set rest. d \<le> d' \<and> d' \<le> d + 1)"
  by (auto simp: bfs_ordered_def list_all_iff)

lemma bfs_ordered_Nil: "bfs_ordered []"
  by (simp add: bfs_ordered_def)

lemma bfs_ordered_tl:
  assumes "bfs_ordered ((u, d) # rest)"
  shows "bfs_ordered rest"
proof (cases rest)
  case Nil
  then show ?thesis by (simp add: bfs_ordered_Nil)
next
  case (Cons a rest')
  obtain u1 d1 where a: "a = (u1, d1)" by (cases a)
  from assms have s: "sorted (map snd rest)"
    and r: "\<forall>(u', d') \<in> set rest. d \<le> d' \<and> d' \<le> d + 1"
    by (simp_all add: bfs_ordered_Cons)
  from r Cons a have "d \<le> d1" by simp
  with r have "\<forall>(u', d') \<in> set rest'. d' \<le> d1 + 1"
    unfolding Cons by fastforce
  moreover from s have "sorted (map snd rest')" "\<forall>(u', d') \<in> set rest'. d1 \<le> d'"
    unfolding Cons a by auto
  ultimately show ?thesis
    unfolding Cons a bfs_ordered_Cons by fastforce
qed

lemma bfs_ordered_append:
  assumes "bfs_ordered ((u, d) # rest)"
  shows "bfs_ordered (rest @ map (\<lambda>link. (link, d + 1)) new)"
proof -
  from assms have s: "sorted (map snd rest)"
    and r: "\<forall>(u', d') \<in> set rest. d \<le> d' \<and> d' \<le> d + 1"
    by (simp_all add: bfs_ordered_Cons)
  have m: "map snd (map (\<lambda>link. (link, d + 1)) new) = replicate (length new) (d + 1)"
    by (simp add: comp_def map_replicate_const)
  from r have "\<forall>x \<in> set (map snd rest). x \<le> d + 1" by auto
  with s have srt: "sorted (map snd (rest @ map (\<lambda>link. (link, d + 1)) new))"
    unfolding map_append m by (simp add: sorted_append)
  show ?thesis
  proof (cases rest)
    case Nil
    show ?thesis
    proof (cases new)
      case Nil
      with \<open>rest = []\<close> show ?thesis by (simp add: bfs_ordered_Nil)
    next
      case (Cons l ls)
      with \<open>rest = []\<close> srt show ?thesis
        by (simp add: bfs_ordered_def list_all_iff)
    qed
  next
    case (Cons a rest')
    obtain u1 d1 where a: "a = (u1, d1)" by (cases a)
    from r Cons a have d1: "d \<le> d1" by simp
    from r have "\<forall>(u', d') \<in> set rest'. d' \<le> d1 + 1"
      unfolding Cons a using d1 by fastforce
    with srt d1 show ?thesis
      unfolding Cons a by (auto simp add: bfs_ordered_def list_all_iff split_beta)
  qed
qed

lemma bfs_ordered_step:
  assumes "bfs_ordered (url_queue s)" "loop_body fetch base_url depth patterns s = Inr s'"
    "url_queue s = (u, d) # rest"
  shows "bfs_ordered (url_queue s') \<and> (\<forall>(u', d') \<in> set (url_queue s'). d \<le> d')"
proof -
  from assms(1,3) have o: "bfs_ordered ((u, d) # rest)" by simp
  then have r: "\<forall>(u', d') \<in> set rest. d \<le> d'"
    by (auto simp: bfs_ordered_Cons)
  from assms(2) show ?thesis
  proof (cases rule: loop_body_Inr_shape)
    case (skip u0 d0 rest0)
    with assms(3) have "url_queue s' = rest" by simp
    with bfs_ordered_tl [OF o] r show ?thesis by simp
  next
    case (failed u0 d0 rest0 result w)
    with assms(3) have "url_queue s' = rest" by simp
    with bfs_ordered_tl [OF o] r show ?thesis by simp
  next
    case (stored u0 d0 rest0 result w node new)
    with assms(3) have q: "url_queue s' = rest @ map (\<lambda>link. (link, d + 1)) new" by simp
    from r have "\<forall>(u', d') \<in> set (rest @ map (\<lambda>link. (link, d + 1)) new). d \<le> d'"
      by auto
    with bfs_ordered_append [OF o, of new] show ?thesis unfolding q by simp
  qed
qed

lemma processed_pages_unfold:
  "processed_pages fetch base_url depth patterns st =
     (if continues st
      then (if skips depth st then [] else take 1 (url_queue st)) @
           (case loop_body fetch base_url depth patterns st of
              Inl raised \<Rightarrow> []
            | Inr st' \<Rightarrow> processed_pages fetch base_url depth patterns st')
      else [])"
proof (cases "continues st")
  case False
  then show ?thesis
    by (simp add: processed_pages_def loop_states_unfold [of fetch base_url depth patterns st])
next
  case True
  then show ?thesis
    by (cases "loop_body fetch base_url depth patterns st")
      (simp_all add: processed_pages_def loop_states_unfold [of fetch base_url depth patterns st])
qed

lemma processed_pages_stop:
  "\<not> continues st \<Longrightarrow> processed_pages fetch base_url depth patterns st = []"
  by (subst processed_pages_unfold) simp

lemma processed_pages_raise:
  "continues st \<Longrightarrow> loop_body fetch base_url depth patterns st = Inl raised \<Longrightarrow>
     url_queue st = (u, d) # rest \<Longrightarrow>
     processed_pages fetch base_url depth patterns st = (if skips depth st then [] else [(u, d)])"
  by (subst processed_pages_unfold) simp

lemma processed_pages_next:
  "continues st \<Longrightarrow> loop_body fetch base_url depth patterns st = Inr st' \<Longrightarrow>
     url_queue st = (u, d) # rest \<Longrightarrow>
     processed_pages fetch base_url depth patterns st =
       (if skips depth st then [] else [(u, d)]) @ processed_pages fetch base_url depth patterns st'"
  by (subst processed_pages_unfold) simp

lemma processed_pages_sorted:
  assumes "bfs_ordered (url_queue st)" "depths_from m (url_queue st)"
  shows "sorted (map snd (processed_pages fetch base_url depth patterns st)) \<and>
         depths_from m (processed_pages fetch base_url depth patterns st)"
  using assms
proof (induction fetch base_url depth patterns st arbitrary: m rule: crawl_loop.induct)
  case (1 fetch base_url depth patterns st)
  show ?case
  proof (cases "continues st")
    case False
    then show ?thesis by (simp add: processed_pages_stop depths_from_def)
  next
    case True
    then obtain u d rest where q: "url_queue st = (u, d) # rest"
      by (cases "url_queue st") (auto simp: continues_def)
    from "1.prems"(2) q have md: "m \<le> d" by (simp add: depths_from_def)
    show ?thesis
    proof (cases "loop_body fetch base_url depth patterns st")
      case (Inl raised)
      from md show ?thesis
        by (simp add: processed_pages_raise [OF True Inl q] depths_from_def)
    next
      case (Inr st')
      from bfs_ordered_step [OF "1.prems"(1) Inr q]
      have ord: "bfs_ordered (url_queue st')" and ge: "depths_from d (url_queue st')"
        by (simp_all add: depths_from_def list_all_iff)
      from "1.IH" [OF True Inr ord ge]
      have srt: "sorted (map snd (processed_pages fetch base_url depth patterns st'))"
        and low: "depths_from d (processed_pages fetch base_url depth patterns st')"
        by simp_all
      from low md have low': "depths_from m (processed_pages fetch base_url depth patterns st')"
        by (fastforce simp: depths_from_def list_all_iff)
      from srt low low' md show ?thesis
        unfolding processed_pages_next [OF True Inr q]
        by (auto simp: depths_from_def list_all_iff)
    qed
  qed
qed

section \<open>The depth bound\<close>

lemma set_update_subset: "set (AList.update k v al) \<subseteq> insert (k, v) (set al)"
  by (induction al) auto

lemma depths_bounded_step:
  assumes "depths_bounded depth s" "loop_body fetch base_url depth patterns s = Inr s'"
  shows "depths_bounded depth s'"
  using assms(2)
proof (cases rule: loop_body_Inr_shape)
  case (skip u d rest)
  with assms(1) show ?thesis by (simp add: depths_bounded_def)
next
  case (failed u d rest result w)
  with assms(1) show ?thesis by (simp add: depths_bounded_def)
next
  case (stored u d rest result w node new)
  from stored(3,6,11) assms(1) set_update_subset [of u node "kg_nodes (knowledge_graph s)"]
  show ?thesis by (auto simp: depths_bounded_def)
qed

text \<open>
  C5. Every node of a returned graph has a recorded depth of at most the \<open>depth\<close>
  parameter.
\<close>

theorem node_depth_at_most_depth:
  assumes "fst (extend_knowledge_graph init fetch framework_name base_url depth patterns w) = Inr g"
    and "(url, node) \<in> set (kg_nodes g)"
  shows "node_depth node \<le> depth"
  using assms(1)
proof (cases rule: extend_knowledge_graph_Inr)
  case (1 c w1 st)
  have "depths_bounded depth (initial_state framework_name base_url w1)"
    by (simp add: depths_bounded_def initial_state_simps)
  with 1(2) have "depths_bounded depth st \<and> \<not> continues st"
    by (rule crawl_loop_invariant) (rule depths_bounded_step)
  with 1(3) assms(2) show ?thesis by (auto simp: depths_bounded_def)
qed

theorem node_depth_at_most_depth_witness:
  "fst (extend_knowledge_graph demo_init demo_site ''fw'' ''d'' 2 None 0) = Inr demo_graph \<and>
   (''d/api/b'', \<lparr>node_title = PStr ''B'', node_concepts = PList [], node_apis = PList [],
                  node_depth = 1\<rparr>) \<in> set (kg_nodes demo_graph) \<and>
   node_depth \<lparr>node_title = PStr ''B'', node_concepts = PList [], node_apis = PList [],
               node_depth = 1\<rparr> \<le> 2"
  using node_depth_at_most_depth [where init = demo_init and fetch = demo_site
      and framework_name = "''fw''" and base_url = "''d''" and depth = 2 and patterns = None
      and w = 0 and g = demo_graph and url = "''d/api/b''"
      and node = "\<lparr>node_title = PStr ''B'', node_concepts = PList [], node_apis = PList [],
                  node_depth = 1\<rparr>"] demo_run
  by (simp add: demo_graph_def)

section \<open>Failed fetches\<close>

lemma extend_knowledge_graph_base_fetch_fails:
  assumes "init w = (Inr c, w1)"
    and "fetch base_url ''structured'' w1 = (Inr result, w2)"
    and "\<not> truthy (dict_get result ''success'')"
  shows "extend_knowledge_graph init fetch framework_name base_url depth patterns w =
           (Inr \<lparr>kg_framework = framework_name, kg_base_url = base_url,
                  kg_nodes = [], kg_relationships = []\<rparr>,
            if 0 \<le> depth then w2 else w1)"
proof -
  let ?st0 = "initial_state framework_name base_url w1"
  show ?thesis
  proof (cases "0 \<le> depth")
    case True
    let ?st1 = "?st0\<lparr>url_queue := [], visited_urls := finsert base_url (visited_urls ?st0), world := w2\<rparr>"
    have "loop_body fetch base_url depth patterns ?st0 = Inr ?st1"
      using True assms(2,3) by (intro loop_body_failed_fetch) (simp_all add: initial_state_simps)
    then have "crawl_loop fetch base_url depth patterns ?st0 = crawl_loop fetch base_url depth patterns ?st1"
      by (rule crawl_loop_step [OF continues_initial_state])
    also have "\<dots> = Inr ?st1"
      by (rule crawl_loop_exit) (simp add: continues_def)
    finally show ?thesis using assms(1) True
      by (simp add: extend_knowledge_graph_def initial_state_simps)
  next
    case False
    let ?st1 = "?st0\<lparr>url_queue := []\<rparr>"
    from False have "loop_body fetch base_url depth patterns ?st0 = Inr ?st1"
      by (simp add: loop_body_def Let_def initial_state_simps)
    then have "crawl_loop fetch base_url depth patterns ?st0 = crawl_loop fetch base_url depth patterns ?st1"
      by (rule crawl_loop_step [OF continues_initial_state])
    also have "\<dots> = Inr ?st1"
      by (rule crawl_loop_exit) (simp add: continues_def)
    finally show ?thesis using assms(1) False
      by (simp add: extend_knowledge_graph_def initial_state_simps)
  qed
qed

text \<open>
  C6. When the fetch of a dequeued, unvisited URL within the depth bound returns a result
  whose \<open>success\<close> is false, the iteration completes with the graph unchanged: it only
  dequeues the entry, marks the URL visited and takes over the world the fetch left. When
  that happens at the base URL, \<open>extend_knowledge_graph\<close> returns a graph without nodes
  and without edges.
\<close>

theorem failed_fetch_adds_nothing:
  "(url_queue st = (url, d) # rest \<and> url |\<notin>| visited_urls st \<and> d \<le> depth \<and>
    fetch url ''structured'' (world st) = (Inr result, w') \<and>
    \<not> truthy (dict_get result ''success'')
      \<longrightarrow> loop_body fetch base_url depth patterns st =
            Inr (st\<lparr>url_queue := rest, visited_urls := finsert url (visited_urls st),
                    world := w'\<rparr>)) \<and>
   (init w = (Inr c, w1) \<and> fetch base_url ''structured'' w1 = (Inr result, w2) \<and>
    \<not> truthy (dict_get result ''success'')
      \<longrightarrow> extend_knowledge_graph init fetch framework_name base_url depth patterns w =
            (Inr \<lparr>kg_framework = framework_name, kg_base_url = base_url,
                   kg_nodes = [], kg_relationships = []\<rparr>,
             if 0 \<le> depth then w2 else w1))"
proof (intro conjI impI)
  assume "url_queue st = (url, d) # rest \<and> url |\<notin>| visited_urls st \<and> d \<le> depth \<and>
    fetch url ''structured'' (world st) = (Inr result, w') \<and>
    \<not> truthy (dict_get result ''success'')"
  then show "loop_body fetch base_url depth patterns st =
            Inr (st\<lparr>url_queue := rest, visited_urls := finsert url (visited_urls st),
                    world := w'\<rparr>)"
    by (elim conjE) (rule loop_body_failed_fetch)
next
  assume "init w = (Inr c, w1) \<and> fetch base_url ''structured'' w1 = (Inr result, w2) \<and>
    \<not> truthy (dict_get result ''success'')"
  then show "extend_knowledge_graph init fetch framework_name base_url depth patterns w =
            (Inr \<lparr>kg_framework = framework_name, kg_base_url = base_url,
                   kg_nodes = [], kg_relationships = []\<rparr>,
             if 0 \<le> depth then w2 else w1)"
    by (elim conjE) (rule extend_knowledge_graph_base_fetch_fails)
qed

theorem failed_fetch_adds_nothing_witness:
  "url_queue (initial_state ''fw'' ''d/api/c'' (0::nat)) = (''d/api/c'', 0) # [] \<and>
   ''d/api/c'' |\<notin>| visited_urls (initial_state ''fw'' ''d/api/c'' (0::nat)) \<and>
   demo_init 0 = (Inr (), 0) \<and>
   demo_site ''d/api/c'' ''structured'' 0 =
     (Inr [(''url'', PStr ''d/api/c''), (''error'', PStr ''timeout''), (''success'', PBool False)], 1) \<and>
   \<not> truthy (dict_get [(''url'', PStr ''d/api/c''), (''error'', PStr ''timeout''),
                        (''success'', PBool False)] ''success'') \<and>
   loop_body demo_site ''d/api/c'' 2 None (initial_state ''fw'' ''d/api/c'' 0) =
     Inr \<lparr>knowledge_graph = \<lparr>kg_framework = ''fw'', kg_base_url = ''d/api/c'',
                                kg_nodes = [], kg_relationships = []\<rparr>,
           url_queue = [], visited_urls = {|''d/api/c''|}, world = 1\<rparr> \<and>
   extend_knowledge_graph demo_init demo_site ''fw'' ''d/api/c'' 2 None 0 =
     (Inr \<lparr>kg_framework = ''fw'', kg_base_url = ''d/api/c'', kg_nodes = [], kg_relationships = []\<rparr>, 1)"
  using failed_fetch_adds_nothing [where st = "initial_state ''fw'' ''d/api/c'' 0"
      and url = "''d/api/c''" and d = 0 and rest = "[]" and depth = 2 and fetch = demo_site
      and result = "[(''url'', PStr ''d/api/c''), (''error'', PStr ''timeout''),
                     (''success'', PBool False)]"
      and w' = 1 and base_url = "''d/api/c''" and patterns = None and init = demo_init
      and w = 0 and c = "()" and ?w1.0 = 0 and ?w2.0 = 1 and framework_name = "''fw''"]
  by (simp add: initial_state_def demo_site_def demo_init_def dict_get_def)

section \<open>The depth of a node\<close>

lemma enqueued_entries_stop:
  "\<not> continues st \<Longrightarrow> enqueued_entries fetch base_url depth patterns st = url_queue st"
  by (simp add: enqueued_entries_def loop_states_unfold [of fetch base_url depth patterns st])

lemma enqueued_entries_next:
  "continues st \<Longrightarrow> loop_body fetch base_url depth patterns st = Inr st' \<Longrightarrow>
     url_queue st = (u, d) # rest \<Longrightarrow>
     enqueued_entries fetch base_url depth patterns st =
       (u, d) # enqueued_entries fetch base_url depth patterns st'"
  using loop_states_not_Nil [of fetch base_url depth patterns st']
  by (simp add: enqueued_entries_def loop_states_unfold [of fetch base_url depth patterns st])

lemma depths_within_step:
  assumes "depths_within depth (url_queue s)" "loop_body fetch base_url depth patterns s = Inr s'"
  shows "depths_within depth (url_queue s')"
  using assms(2)
proof (cases rule: loop_body_Inr_shape)
  case (skip u d rest)
  with assms(1) show ?thesis by (simp add: depths_within_def)
next
  case (failed u d rest result w)
  with assms(1) show ?thesis by (simp add: depths_within_def)
next
  case (stored u d rest result w node new)
  from stored(7) have "list_all (\<lambda>(u, d). d \<le> depth) (map (\<lambda>link. (link, d + 1)) new)"
    by (auto simp: list_all_iff)
  with stored(1,8) assms(1) show ?thesis by (simp add: depths_within_def)
qed

text \<open>
  A node of the exit state was there at the start, or belongs to a URL that was not yet
  visited and carries the depth of the first entry for that URL.
\<close>

lemma first_entry_depth:
  assumes "crawl_loop fetch base_url depth patterns st = Inr st'"
    and "depths_within depth (url_queue st)"
    and "map_of (kg_nodes (knowledge_graph st')) url = Some node"
  shows "map_of (kg_nodes (knowledge_graph st)) url = Some node \<or>
         (url |\<notin>| visited_urls st \<and>
          map_of (enqueued_entries fetch base_url depth patterns st) url = Some (node_depth node))"
  using assms
proof (induction fetch base_url depth patterns st rule: crawl_loop.induct)
  case (1 fetch base_url depth patterns st)
  show ?case
  proof (cases "continues st")
    case False
    with "1.prems"(1) have "st' = st"
      by (simp add: crawl_loop.simps [of fetch base_url depth patterns st])
    with "1.prems"(3) show ?thesis by simp
  next
    case True
    with "1.prems"(1) obtain s where s: "loop_body fetch base_url depth patterns st = Inr s"
      and r: "crawl_loop fetch base_url depth patterns s = Inr st'"
      by (auto simp: crawl_loop.simps [of fetch base_url depth patterns st] split: sum.splits)
    from depths_within_step [OF "1.prems"(2) s] have dw: "depths_within depth (url_queue s)" .
    note IH = "1.IH" [OF True s r dw "1.prems"(3)]
    from s show ?thesis
    proof (cases rule: loop_body_Inr_shape)
      case (skip u d rest)
      from "1.prems"(2) skip(1) have "d \<le> depth" by (simp add: depths_within_def)
      with skip(2) have v: "u |\<in>| visited_urls st" by simp
      from IH show ?thesis
      proof
        assume "map_of (kg_nodes (knowledge_graph s)) url = Some node"
        with skip(3) show ?thesis by simp
      next
        assume a: "url |\<notin>| visited_urls s \<and>
          map_of (enqueued_entries fetch base_url depth patterns s) url = Some (node_depth node)"
        with skip(3) v have "url \<noteq> u" "url |\<notin>| visited_urls st" by auto
        with a show ?thesis
          by (simp add: enqueued_entries_next [OF True s skip(1)])
      qed
    next
      case (failed u d rest result w)
      from IH show ?thesis
      proof
        assume "map_of (kg_nodes (knowledge_graph s)) url = Some node"
        with failed(6) show ?thesis by simp
      next
        assume a: "url |\<notin>| visited_urls s \<and>
          map_of (enqueued_entries fetch base_url depth patterns s) url = Some (node_depth node)"
        with failed(6) have "url \<noteq> u" "url |\<notin>| visited_urls st" by auto
        with a show ?thesis
          by (simp add: enqueued_entries_next [OF True s failed(1)])
      qed
    next
      case (stored u d rest result w node0 new)
      from IH show ?thesis
      proof
        assume n: "map_of (kg_nodes (knowledge_graph s)) url = Some node"
        show ?thesis
        proof (cases "url = u")
          case True
          with n stored(11) have "node = node0" by (simp add: update_conv')
          with stored(6) have "node_depth node = d" by simp
          with True stored(2) show ?thesis
            by (simp add: enqueued_entries_next [OF \<open>continues st\<close> s stored(1)])
        next
          case False
          with n stored(11) show ?thesis by (simp add: update_conv')
        qed
      next
        assume a: "url |\<notin>| visited_urls s \<and>
          map_of (enqueued_entries fetch base_url depth patterns s) url = Some (node_depth node)"
        with stored(9) have "url \<noteq> u" "url |\<notin>| visited_urls st" by auto
        with a show ?thesis
          by (simp add: enqueued_entries_next [OF True s stored(1)])
      qed
    qed
  qed
qed

text \<open>
  When every queued entry is deeper than \<open>depth\<close>, the loop only empties the queue.
\<close>

lemma crawl_loop_too_deep:
  assumes "depths_beyond depth (url_queue st)"
  shows "\<exists>q. crawl_loop fetch base_url depth patterns st = Inr (st\<lparr>url_queue := q\<rparr>)"
  using assms
proof (induction "url_queue st" arbitrary: st)
  case Nil
  then have "\<not> continues st" by (simp add: continues_def)
  then have "crawl_loop fetch base_url depth patterns st = Inr (st\<lparr>url_queue := url_queue st\<rparr>)"
    by (simp add: crawl_loop.simps [of fetch base_url depth patterns st])
  then show ?case by blast
next
  case (Cons a rest)
  obtain u d where a: "a = (u, d)" by (cases a)
  from Cons(2) a have q: "url_queue st = (u, d) # rest" by simp
  from Cons(3) have deep: "depth < d" and rest: "depths_beyond depth rest"
    unfolding q by (simp_all add: depths_beyond_def)
  show ?case
  proof (cases "continues st")
    case False
    then have "crawl_loop fetch base_url depth patterns st = Inr (st\<lparr>url_queue := url_queue st\<rparr>)"
      by (simp add: crawl_loop.simps [of fetch base_url depth patterns st])
    then show ?thesis by blast
  next
    case True
    from q deep have b: "loop_body fetch base_url depth patterns st = Inr (st\<lparr>url_queue := rest\<rparr>)"
      by (simp add: loop_body_def Let_def)
    from Cons(1) [of "st\<lparr>url_queue := rest\<rparr>"] rest
    obtain q' where "crawl_loop fetch base_url depth patterns (st\<lparr>url_queue := rest\<rparr>)
        = Inr (st\<lparr>url_queue := rest, url_queue := q'\<rparr>)"
      by auto
    with True b have "crawl_loop fetch base_url depth patterns st = Inr (st\<lparr>url_queue := q'\<rparr>)"
      by (simp add: crawl_loop.simps [of fetch base_url depth patterns st])
    then show ?thesis by blast
  qed
qed

lemma keeps_nodes_refl: "keeps_nodes s s"
  by (simp add: keeps_nodes_def)

lemma keeps_nodes_trans: "keeps_nodes s s' \<Longrightarrow> keeps_nodes s' s'' \<Longrightarrow> keeps_nodes s s''"
  by (simp add: keeps_nodes_def)

lemma nodes_visited_step:
  assumes "nodes_visited s" "loop_body fetch base_url depth patterns s = Inr s'"
  shows "nodes_visited s' \<and> keeps_nodes s s'"
  using assms(2)
proof (cases rule: loop_body_Inr_shape)
  case (skip u d rest)
  with assms(1) show ?thesis by (simp add: nodes_visited_def keeps_nodes_def)
next
  case (failed u d rest result w)
  with assms(1) show ?thesis by (auto simp: nodes_visited_def keeps_nodes_def)
next
  case (stored u d rest result w node new)
  from stored(2) assms(1) have "u \<notin> fst ` set (kg_nodes (knowledge_graph s))"
    by (auto simp: nodes_visited_def)
  then have "map_of (kg_nodes (knowledge_graph s)) u = None"
    by (simp add: map_of_eq_None_iff)
  with stored(11) have "keeps_nodes s s'"
    by (auto simp: keeps_nodes_def update_conv')
  moreover from stored(9,11) assms(1) have "nodes_visited s'"
    by (auto simp: nodes_visited_def dom_update)
  ultimately show ?thesis by simp
qed

lemma loop_states_keep_nodes:
  assumes "nodes_visited st"
  shows "sorted_wrt keeps_nodes (loop_states fetch base_url depth patterns st)"
  using assms
proof (induction fetch base_url depth patterns st rule: loop_states.induct)
  case (1 fetch base_url depth patterns st)
  note unf = loop_states_unfold [of fetch base_url depth patterns st]
  show ?case
  proof (cases "continues st")
    case False
    then show ?thesis by (simp add: unf)
  next
    case True
    show ?thesis
    proof (cases "loop_body fetch base_url depth patterns st")
      case (Inl raised)
      with True show ?thesis by (simp add: unf)
    next
      case (Inr st')
      from nodes_visited_step [OF "1.prems" Inr]
      have nv: "nodes_visited st'" and k: "keeps_nodes st st'" by simp_all
      have "keeps_nodes st s" if "s \<in> set (loop_states fetch base_url depth patterns st')" for s
      proof -
        have "nodes_visited st' \<and> keeps_nodes st st'" using nv k by simp
        then have "nodes_visited s \<and> keeps_nodes st s" using that
        proof (rule loop_states_invariant [where I = "\<lambda>s. nodes_visited s \<and> keeps_nodes st s"])
          fix s s'
          assume "nodes_visited s \<and> keeps_nodes st s"
            and "loop_body fetch base_url depth patterns s = Inr s'"
          with nodes_visited_step [of s fetch base_url depth patterns s']
          show "nodes_visited s' \<and> keeps_nodes st s'"
            by (auto intro: keeps_nodes_trans)
        qed
        then show ?thesis by simp
      qed
      with "1.IH" [OF True Inr nv] True Inr show ?thesis by (simp add: unf)
    qed
  qed
qed

text \<open>
  C8. The depth recorded on a node of the returned graph is the depth of the first queue
  entry that was enqueued for its URL. Once a node is in the graph at the head of an
  iteration, it is in the graph, unchanged, at the head of every later iteration, and so
  in the returned graph, which is the graph of the last head state.
\<close>

theorem node_depth_first_enqueued_entry:
  assumes "fst (extend_knowledge_graph init fetch framework_name base_url depth patterns w) = Inr g"
    and "map_of (kg_nodes g) url = Some node"
  shows "map_of (enqueued_entries fetch base_url depth patterns
                   (initial_state framework_name base_url (snd (init w)))) url
           = Some (node_depth node) \<and>
         g = knowledge_graph (last (loop_states fetch base_url depth patterns
                                      (initial_state framework_name base_url (snd (init w))))) \<and>
         (\<forall>i j. i \<le> j \<and>
                j < length (loop_states fetch base_url depth patterns
                              (initial_state framework_name base_url (snd (init w)))) \<and>
                map_of (kg_nodes (knowledge_graph
                   (loop_states fetch base_url depth patterns
                      (initial_state framework_name base_url (snd (init w))) ! i))) url' = Some node'
            \<longrightarrow> map_of (kg_nodes (knowledge_graph
                   (loop_states fetch base_url depth patterns
                      (initial_state framework_name base_url (snd (init w))) ! j))) url' = Some node')"
  using assms(1)
proof (cases rule: extend_knowledge_graph_Inr)
  case (1 c w1 st)
  let ?st0 = "initial_state framework_name base_url (snd (init w))"
  from 1(1) have w1: "snd (init w) = w1" by simp
  note run = 1(2) [folded w1]
  have first: "map_of (enqueued_entries fetch base_url depth patterns ?st0) url = Some (node_depth node)"
  proof (cases "0 \<le> depth")
    case True
    then have "depths_within depth (url_queue ?st0)"
      by (simp add: depths_within_def initial_state_simps)
    from first_entry_depth [OF run this] assms(2) 1(3) show ?thesis
      by (simp add: initial_state_simps)
  next
    case False
    then have "depths_beyond depth (url_queue ?st0)"
      by (simp add: depths_beyond_def initial_state_simps)
    from crawl_loop_too_deep [OF this, of fetch base_url patterns] run
    obtain q where "st = ?st0\<lparr>url_queue := q\<rparr>" by auto
    with assms(2) 1(3) show ?thesis by (simp add: initial_state_simps)
  qed
  have last: "g = knowledge_graph (last (loop_states fetch base_url depth patterns ?st0))"
    using crawl_loop_last_state [OF run] 1(3) by simp
  have "nodes_visited ?st0" by (simp add: nodes_visited_def initial_state_simps)
  then have sw: "sorted_wrt keeps_nodes (loop_states fetch base_url depth patterns ?st0)"
    by (rule loop_states_keep_nodes)
  have keep: "map_of (kg_nodes (knowledge_graph (loop_states fetch base_url depth patterns ?st0 ! j))) url'
         = Some node'"
    if "i \<le> j" "j < length (loop_states fetch base_url depth patterns ?st0)"
      "map_of (kg_nodes (knowledge_graph (loop_states fetch base_url depth patterns ?st0 ! i))) url'
         = Some node'" for i j
  proof (cases "i = j")
    case True
    with that show ?thesis by simp
  next
    case False
    with that(1) have "i < j" by simp
    with sw that(2) have "keeps_nodes (loop_states fetch base_url depth patterns ?st0 ! i)
        (loop_states fetch base_url depth patterns ?st0 ! j)"
      by (simp add: sorted_wrt_iff_nth_less)
    with that(3) show ?thesis by (simp add: keeps_nodes_def)
  qed
  from first last keep show ?thesis by blast
qed

theorem node_depth_first_enqueued_entry_witness:
  "fst (extend_knowledge_graph demo_init demo_site ''fw'' ''d'' 2 None 0) = Inr demo_graph \<and>
   map_of (kg_nodes demo_graph) ''d/api/b'' =
     Some \<lparr>node_title = PStr ''B'', node_concepts = PList [], node_apis = PList [], node_depth = 1\<rparr> \<and>
   enqueued_entries demo_site ''d'' 2 None (initial_state ''fw'' ''d'' (snd (demo_init 0))) =
     [(''d'', 0), (''d/api/a'', 1), (''d/api/b'', 1), (''d/api/a'', 1), (''d/api/b'', 2),
      (''d/api/c'', 2)] \<and>
   map_of (enqueued_entries demo_site ''d'' 2 None (initial_state ''fw'' ''d'' (snd (demo_init 0))))
     ''d/api/b'' = Some 1 \<and>
   demo_graph = knowledge_graph (last (loop_states demo_site ''d'' 2 None
                                         (initial_state ''fw'' ''d'' (snd (demo_init 0))))) \<and>
   (2::nat) \<le> 6 \<and>
   6 < length (loop_states demo_site ''d'' 2 None (initial_state ''fw'' ''d'' (snd (demo_init 0)))) \<and>
   map_of (kg_nodes (knowledge_graph
     (loop_states demo_site ''d'' 2 None (initial_state ''fw'' ''d'' (snd (demo_init 0))) ! 2)))
     ''d/api/a''
     = Some \<lparr>node_title = PStr ''A'', node_concepts = PList [PStr ''x''],
              node_apis = PList [], node_depth = 1\<rparr> \<and>
   map_of (kg_nodes (knowledge_graph
     (loop_states demo_site ''d'' 2 None (initial_state ''fw'' ''d'' (snd (demo_init 0))) ! 6)))
     ''d/api/a''
     = Some \<lparr>node_title = PStr ''A'', node_concepts = PList [PStr ''x''],
              node_apis = PList [], node_depth = 1\<rparr>"
proof -
  have i: "snd (demo_init 0) = 0" by (simp add: demo_init_def)
  have n: "map_of (kg_nodes demo_graph) ''d/api/b'' =
     Some \<lparr>node_title = PStr ''B'', node_concepts = PList [], node_apis = PList [], node_depth = 1\<rparr>"
    by (simp add: demo_graph_def)
  from demo_run have r: "fst (extend_knowledge_graph demo_init demo_site ''fw'' ''d'' 2 None 0) = Inr demo_graph"
    by simp
  note inst = node_depth_first_enqueued_entry [OF r n, where url' = "''d/api/a''"
      and node' = "\<lparr>node_title = PStr ''A'', node_concepts = PList [PStr ''x''],
              node_apis = PList [], node_depth = 1\<rparr>"]
  note first = inst [THEN conjunct1]
  note last = inst [THEN conjunct2, THEN conjunct1]
  note keep = inst [THEN conjunct2, THEN conjunct2, rule_format, of 2 6]
  have kept: "map_of (kg_nodes (knowledge_graph
        (loop_states demo_site ''d'' 2 None (initial_state ''fw'' ''d'' (snd (demo_init 0))) ! 6)))
        ''d/api/a''
        = Some \<lparr>node_title = PStr ''A'', node_concepts = PList [PStr ''x''],
                 node_apis = PList [], node_depth = 1\<rparr>"
  proof (rule keep)
    show "(2::nat) \<le> 6 \<and>
      6 < length (loop_states demo_site ''d'' 2 None (initial_state ''fw'' ''d'' (snd (demo_init 0)))) \<and>
      map_of (kg_nodes (knowledge_graph
        (loop_states demo_site ''d'' 2 None (initial_state ''fw'' ''d'' (snd (demo_init 0))) ! 2)))
        ''d/api/a''
        = Some \<lparr>node_title = PStr ''A'', node_concepts = PList [PStr ''x''],
                 node_apis = PList [], node_depth = 1\<rparr>"
      unfolding i using demo_head_states(3,4) by simp
  qed
  have len: "6 < length (loop_states demo_site ''d'' 2 None
      (initial_state ''fw'' ''d'' (snd (demo_init 0))))"
    unfolding i using demo_head_states(3) by simp
  have two: "map_of (kg_nodes (knowledge_graph
        (loop_states demo_site ''d'' 2 None (initial_state ''fw'' ''d'' (snd (demo_init 0))) ! 2)))
        ''d/api/a''
        = Some \<lparr>node_title = PStr ''A'', node_concepts = PList [PStr ''x''],
                 node_apis = PList [], node_depth = 1\<rparr>"
    unfolding i by (rule demo_head_states(4))
  have enq: "enqueued_entries demo_site ''d'' 2 None (initial_state ''fw'' ''d'' (snd (demo_init 0))) =
     [(''d'', 0), (''d/api/a'', 1), (''d/api/b'', 1), (''d/api/a'', 1), (''d/api/b'', 2),
      (''d/api/c'', 2)]"
    unfolding i by (rule demo_enqueued)
  have first': "map_of (enqueued_entries demo_site ''d'' 2 None
      (initial_state ''fw'' ''d'' (snd (demo_init 0)))) ''d/api/b'' = Some 1"
    using first by simp
  have six: "(2::nat) \<le> 6" by simp
  show ?thesis
    by (intro conjI) (fact r n enq first' last six len two kept)+
qed

section \<open>Breadth-first order of an invocation\<close>

lemma update_append: "k \<notin> fst ` set al \<Longrightarrow> AList.update k v al = al @ [(k, v)]"
  by (induction al) auto

lemma subseq_sorted: "subseq xs ys \<Longrightarrow> sorted ys \<Longrightarrow> sorted (xs :: int list)"
  by (metis sorted_nths subseq_conv_nths)

lemma skips_Cons:
  "url_queue st = (u, d) # rest \<Longrightarrow> skips depth st \<longleftrightarrow> u |\<in>| visited_urls st \<or> depth < d"
  by (simp add: skips_def)

text \<open>The URLs that the loop adds to the visited set are those of the processed pages.\<close>

lemma visited_urls_processed:
  assumes "crawl_loop fetch base_url depth patterns st = Inr st'"
  shows "fset (visited_urls st') =
           fset (visited_urls st) \<union> fst ` set (processed_pages fetch base_url depth patterns st)"
  using assms
proof (induction fetch base_url depth patterns st rule: crawl_loop.induct)
  case (1 fetch base_url depth patterns st)
  show ?case
  proof (cases "continues st")
    case False
    with "1.prems" have "st' = st"
      by (simp add: crawl_loop.simps [of fetch base_url depth patterns st])
    with False show ?thesis by (simp add: processed_pages_stop)
  next
    case True
    with "1.prems" obtain s where s: "loop_body fetch base_url depth patterns st = Inr s"
      and r: "crawl_loop fetch base_url depth patterns s = Inr st'"
      by (auto simp: crawl_loop.simps [of fetch base_url depth patterns st] split: sum.splits)
    note IH = "1.IH" [OF True s r]
    from s show ?thesis
    proof (cases rule: loop_body_Inr_shape)
      case (skip u d rest)
      then have "skips depth st" by (auto simp: skips_Cons)
      with IH skip show ?thesis
        by (simp add: processed_pages_next [OF True s skip(1)])
    next
      case (failed u d rest result w)
      then have "\<not> skips depth st" by (auto simp: skips_Cons)
      with IH failed show ?thesis
        by (simp add: processed_pages_next [OF True s failed(1)])
    next
      case (stored u d rest result w node new)
      then have "\<not> skips depth st" by (auto simp: skips_Cons)
      with IH stored(9) show ?thesis
        by (simp add: processed_pages_next [OF True s stored(1)])
    qed
  qed
qed

text \<open>
  The nodes that the loop adds to the graph are appended in the order in which their pages
  are processed, each with the depth of its queue entry.
\<close>

lemma kg_nodes_processed:
  assumes "crawl_loop fetch base_url depth patterns st = Inr st'"
    and "nodes_visited st"
  shows "\<exists>added. kg_nodes (knowledge_graph st') = kg_nodes (knowledge_graph st) @ added \<and>
           subseq (map (apsnd node_depth) added)
             (processed_pages fetch base_url depth patterns st)"
  using assms
proof (induction fetch base_url depth patterns st rule: crawl_loop.induct)
  case (1 fetch base_url depth patterns st)
  show ?case
  proof (cases "continues st")
    case False
    with "1.prems" have "st' = st"
      by (simp add: crawl_loop.simps [of fetch base_url depth patterns st])
    then have "kg_nodes (knowledge_graph st') = kg_nodes (knowledge_graph st) @ []" by simp
    moreover have "subseq (map (apsnd node_depth) [])
        (processed_pages fetch base_url depth patterns st)" by simp
    ultimately show ?thesis by blast
  next
    case True
    with "1.prems" obtain s where s: "loop_body fetch base_url depth patterns st = Inr s"
      and r: "crawl_loop fetch base_url depth patterns s = Inr st'"
      by (auto simp: crawl_loop.simps [of fetch base_url depth patterns st] split: sum.splits)
    from nodes_visited_step [OF "1.prems"(2) s] have nv: "nodes_visited s" by simp
    from "1.IH" [OF True s r nv] obtain added where
      a: "kg_nodes (knowledge_graph st') = kg_nodes (knowledge_graph s) @ added"
      and e: "subseq (map (apsnd node_depth) added)
                (processed_pages fetch base_url depth patterns s)"
      by blast
    from s show ?thesis
    proof (cases rule: loop_body_Inr_shape)
      case (skip u d rest)
      have "subseq (map (apsnd node_depth) added)
          (processed_pages fetch base_url depth patterns st)"
        unfolding processed_pages_next [OF True s skip(1)] using e by (rule subseq_drop_many)
      with a skip(3) show ?thesis by auto
    next
      case (failed u d rest result w)
      have "subseq (map (apsnd node_depth) added)
          (processed_pages fetch base_url depth patterns st)"
        unfolding processed_pages_next [OF True s failed(1)] using e by (rule subseq_drop_many)
      with a failed(6) show ?thesis by auto
    next
      case (stored u d rest result w node new)
      from stored(1,2,3) have ns: "\<not> skips depth st" by (auto simp: skips_Cons)
      from stored(2) "1.prems"(2) have "u \<notin> fst ` set (kg_nodes (knowledge_graph st))"
        by (auto simp: nodes_visited_def)
      with stored(11) have
        "kg_nodes (knowledge_graph s) = kg_nodes (knowledge_graph st) @ [(u, node)]"
        by (simp add: update_append)
      with a have "kg_nodes (knowledge_graph st') =
          kg_nodes (knowledge_graph st) @ ((u, node) # added)" by simp
      moreover from e stored(6) ns have "subseq (map (apsnd node_depth) ((u, node) # added))
          (processed_pages fetch base_url depth patterns st)"
        by (simp add: processed_pages_next [OF True s stored(1)])
      ultimately show ?thesis by blast
    qed
  qed
qed

text \<open>
  With a logged fetch, the loop appends to the log the URLs of the pages it processes, in
  the order in which it processes them, whether it exits or raises.
\<close>

lemma fetch_log_processed:
  "(case crawl_loop (logged fetch) base_url depth patterns st of
      Inl (e, wl) \<Rightarrow> snd wl
    | Inr st' \<Rightarrow> snd (world st'))
   = snd (world st) @ map fst (processed_pages (logged fetch) base_url depth patterns st)"
proof (induction "logged fetch" base_url depth patterns st rule: crawl_loop.induct)
  case (1 base_url depth patterns st)
  show ?case
  proof (cases "continues st")
    case False
    then show ?thesis
      by (simp add: crawl_loop.simps [of "logged fetch" base_url depth patterns st]
          processed_pages_stop)
  next
    case True
    then obtain u d rest where q: "url_queue st = (u, d) # rest"
      by (cases "url_queue st") (auto simp: continues_def)
    show ?thesis
    proof (cases "loop_body (logged fetch) base_url depth patterns st")
      case (Inl ew)
      obtain e wl where ew: "ew = (e, wl)" by (cases ew)
      from loop_body_Inl_world [OF Inl [unfolded ew]] q
      obtain r where nv: "u |\<notin>| visited_urls st" and dd: "d \<le> depth"
        and f: "logged fetch u ''structured'' (world st) = (r, wl)"
        by auto
      from nv dd q have "\<not> skips depth st" by (simp add: skips_Cons)
      with True Inl q have "processed_pages (logged fetch) base_url depth patterns st = [(u, d)]"
        by (simp add: processed_pages_raise)
      with logged_snd [OF f] True Inl ew show ?thesis
        by (simp add: crawl_loop.simps [of "logged fetch" base_url depth patterns st])
    next
      case (Inr s)
      note IH = "1.hyps" [OF True Inr]
      have step: "snd (world s) = snd (world st) @ map fst (if skips depth st then [] else [(u, d)])"
        using Inr
      proof (cases rule: loop_body_Inr_shape)
        case (skip u0 d0 rest0)
        with q show ?thesis by (auto simp: skips_Cons)
      next
        case (failed u0 d0 rest0 result w)
        with q logged_snd [OF failed(4)] show ?thesis by (auto simp: skips_Cons)
      next
        case (stored u0 d0 rest0 result w node new)
        with q logged_snd [OF stored(4)] show ?thesis by (auto simp: skips_Cons)
      qed
      from True Inr have "crawl_loop (logged fetch) base_url depth patterns st =
          crawl_loop (logged fetch) base_url depth patterns s"
        by (rule crawl_loop_step)
      with IH step show ?thesis
        by (simp add: processed_pages_next [OF True Inr q])
    qed
  qed
qed

lemma fetch_log_eq_processed:
  "fetch_log init fetch framework_name base_url depth patterns w =
     (case init w of
        (Inl e, w1) \<Rightarrow> []
      | (Inr c, w1) \<Rightarrow>
          map fst (processed_pages (logged fetch) base_url depth patterns
                     (initial_state framework_name base_url (w1, []))))"
proof -
  obtain r w1 where i: "init w = (r, w1)" by (cases "init w")
  then have ui: "unlogged init (w, []) = (r, (w1, []))" by (simp add: unlogged_def)
  show ?thesis
  proof (cases r)
    case (Inl e)
    with i ui show ?thesis by (simp add: fetch_log_def extend_knowledge_graph_def)
  next
    case (Inr c)
    note p = fetch_log_processed [of fetch base_url depth patterns
        "initial_state framework_name base_url (w1, [])"]
    show ?thesis
    proof (cases "crawl_loop (logged fetch) base_url depth patterns
        (initial_state framework_name base_url (w1, []))")
      case raised: (Inl ew)
      obtain e wl where ew: "ew = (e, wl)" by (cases ew)
      from p raised ew i ui Inr show ?thesis
        by (simp add: fetch_log_def extend_knowledge_graph_def initial_state_simps)
    next
      case returned: (Inr st)
      from p returned i ui Inr show ?thesis
        by (simp add: fetch_log_def extend_knowledge_graph_def initial_state_simps)
    qed
  qed
qed

text \<open>
  The queue after a completed iteration: the rest of the queue, followed, when the page was
  fetched with success at a depth below \<open>depth\<close>, by the accepted links of the page, one
  level deeper.
\<close>

lemma loop_body_url_queue:
  assumes "url_queue st = (url, d) # rest"
    and "loop_body fetch base_url depth patterns st = Inr st'"
  shows "url_queue st' =
           rest @
           (if url |\<in>| visited_urls st \<or> depth < d then []
            else case fetch url ''structured'' (world st) of
                   (Inl e, w1) \<Rightarrow> []
                 | (Inr result, w1) \<Rightarrow>
                     if truthy (dict_get result ''success'') \<and> d < depth
                     then (case iterate (dict_get_default result ''links'' (PList [])) of
                             Inl e \<Rightarrow> []
                           | Inr found \<Rightarrow>
                               map (\<lambda>link. (link, d + 1)) (accepted_links base_url patterns found))
                     else [])"
  using assms(2)
proof (cases rule: loop_body_Inr_cases)
  case (skip u0 d0 rest0)
  with assms(1) show ?thesis by auto
next
  case (failed u0 d0 rest0 result w)
  with assms(1) show ?thesis by auto
next
  case (leaf u0 d0 rest0 result w node)
  with assms(1) show ?thesis by auto
next
  case (expand u0 d0 rest0 result w node found)
  from follow_links_appends [OF expand(8)]
  have "url_queue st' = rest0 @ map (\<lambda>link. (link, d0 + 1)) (accepted_links base_url patterns found)"
    by simp
  with expand(1-7) assms(1) show ?thesis by auto
qed

text \<open>On links that are all strings, the accepted links are the ones that pass the filter.\<close>

lemma accepted_links_filter:
  "accepted_links base_url patterns (map PStr found) =
     filter (\<lambda>link. should_crawl_link link base_url patterns) found"
  by (induction found) simp_all

text \<open>
  C4. In one invocation the pages are processed in order of non-decreasing depth: no page
  of depth \<open>d + 1\<close> is processed before a page of depth \<open>d\<close>. The processed pages are
  those of the loop of the invocation: the URLs the loop has visited when it exits are the
  processed ones, the nodes of the returned graph are, in insertion order and with their
  depths, a subsequence of the processed pages, so that their depths do not decrease, and
  the fetches of the invocation are issued on the processed pages in their order. A
  completed iteration dequeues the front entry and leaves the rest of the queue followed
  by exactly the accepted links of the page, one level deeper, when the page was fetched
  with success at a depth below \<open>depth\<close>, and by nothing otherwise.
\<close>

theorem breadth_first_order:
  "sorted (map snd (processed_pages fetch base_url depth patterns
                      (initial_state framework_name base_url w1))) \<and>
   (crawl_loop fetch base_url depth patterns (initial_state framework_name base_url w1) = Inr st1 \<longrightarrow>
      fset (visited_urls st1) =
        fst ` set (processed_pages fetch base_url depth patterns
                     (initial_state framework_name base_url w1)) \<and>
      subseq (map (apsnd node_depth) (kg_nodes (knowledge_graph st1)))
        (processed_pages fetch base_url depth patterns
           (initial_state framework_name base_url w1))) \<and>
   (fst (extend_knowledge_graph init fetch framework_name base_url depth patterns w) = Inr g \<longrightarrow>
      subseq (map (apsnd node_depth) (kg_nodes g))
        (processed_pages fetch base_url depth patterns
           (initial_state framework_name base_url (snd (init w)))) \<and>
      sorted (map (\<lambda>(url, node). node_depth node) (kg_nodes g))) \<and>
   fetch_log init fetch framework_name base_url depth patterns w =
     (case init w of
        (Inl e, w2) \<Rightarrow> []
      | (Inr c, w2) \<Rightarrow>
          map fst (processed_pages (logged fetch) base_url depth patterns
                     (initial_state framework_name base_url (w2, [])))) \<and>
   sorted (map snd (processed_pages (logged fetch) base_url depth patterns
                      (initial_state framework_name base_url (w3, [])))) \<and>
   (url_queue st = (url, d) # rest \<and> loop_body fetch base_url depth patterns st = Inr st' \<longrightarrow>
      url_queue st' =
        rest @
        (if url |\<in>| visited_urls st \<or> depth < d then []
         else case fetch url ''structured'' (world st) of
                (Inl e, w4) \<Rightarrow> []
              | (Inr result, w4) \<Rightarrow>
                  if truthy (dict_get result ''success'') \<and> d < depth
                  then (case iterate (dict_get_default result ''links'' (PList [])) of
                          Inl e \<Rightarrow> []
                        | Inr found \<Rightarrow>
                            map (\<lambda>link. (link, d + 1)) (accepted_links base_url patterns found))
                  else []))"
proof (intro conjI impI)
  have srt: "sorted (map snd (processed_pages f base_url depth patterns
                      (initial_state framework_name base_url v)))" for f and v :: 'v
  proof -
    have "bfs_ordered (url_queue (initial_state framework_name base_url v))"
      by (simp add: initial_state_simps bfs_ordered_def)
    moreover have "depths_from 0 (url_queue (initial_state framework_name base_url v))"
      by (simp add: initial_state_simps depths_from_def)
    ultimately show ?thesis using processed_pages_sorted by blast
  qed
  show "sorted (map snd (processed_pages fetch base_url depth patterns
                      (initial_state framework_name base_url w1)))"
    by (rule srt)
  show "sorted (map snd (processed_pages (logged fetch) base_url depth patterns
                      (initial_state framework_name base_url (w3, []))))"
    by (rule srt)
  show "fetch_log init fetch framework_name base_url depth patterns w =
     (case init w of
        (Inl e, w2) \<Rightarrow> []
      | (Inr c, w2) \<Rightarrow>
          map fst (processed_pages (logged fetch) base_url depth patterns
                     (initial_state framework_name base_url (w2, []))))"
    by (rule fetch_log_eq_processed)
  have nodes: "subseq (map (apsnd node_depth) (kg_nodes (knowledge_graph s)))
        (processed_pages fetch base_url depth patterns (initial_state framework_name base_url v))"
    if "crawl_loop fetch base_url depth patterns (initial_state framework_name base_url v) = Inr s"
    for s v
  proof -
    have "nodes_visited (initial_state framework_name base_url v)"
      by (simp add: nodes_visited_def initial_state_simps)
    from kg_nodes_processed [OF that this] show ?thesis
      by (auto simp: initial_state_simps)
  qed
  {
    assume run: "crawl_loop fetch base_url depth patterns
        (initial_state framework_name base_url w1) = Inr st1"
    from visited_urls_processed [OF run]
    show "fset (visited_urls st1) =
        fst ` set (processed_pages fetch base_url depth patterns
                     (initial_state framework_name base_url w1))"
      by (simp add: initial_state_simps)
    from run show "subseq (map (apsnd node_depth) (kg_nodes (knowledge_graph st1)))
        (processed_pages fetch base_url depth patterns
           (initial_state framework_name base_url w1))"
      by (rule nodes)
  }
  {
    assume ret: "fst (extend_knowledge_graph init fetch framework_name base_url depth patterns w)
        = Inr g"
    then obtain c v st where i: "init w = (Inr c, v)"
      and run: "crawl_loop fetch base_url depth patterns
          (initial_state framework_name base_url v) = Inr st"
      and g: "g = knowledge_graph st"
      by (rule extend_knowledge_graph_Inr)
    from i have v: "snd (init w) = v" by simp
    from nodes [OF run] show sub: "subseq (map (apsnd node_depth) (kg_nodes g))
        (processed_pages fetch base_url depth patterns
           (initial_state framework_name base_url (snd (init w))))"
      unfolding v g .
    then have "subseq (map snd (map (apsnd node_depth) (kg_nodes g)))
        (map snd (processed_pages fetch base_url depth patterns
           (initial_state framework_name base_url (snd (init w)))))"
      by (rule subseq_map)
    then have "sorted (map snd (map (apsnd node_depth) (kg_nodes g)))"
      using srt by (rule subseq_sorted)
    then show "sorted (map (\<lambda>(url, node). node_depth node) (kg_nodes g))"
      by (simp add: comp_def case_prod_unfold)
  }
  assume "url_queue st = (url, d) # rest \<and> loop_body fetch base_url depth patterns st = Inr st'"
  then show "url_queue st' =
        rest @
        (if url |\<in>| visited_urls st \<or> depth < d then []
         else case fetch url ''structured'' (world st) of
                (Inl e, w4) \<Rightarrow> []
              | (Inr result, w4) \<Rightarrow>
                  if truthy (dict_get result ''success'') \<and> d < depth
                  then (case iterate (dict_get_default result ''links'' (PList [])) of
                          Inl e \<Rightarrow> []
                        | Inr found \<Rightarrow>
                            map (\<lambda>link. (link, d + 1)) (accepted_links base_url patterns found))
                  else [])"
    by (elim conjE) (rule loop_body_url_queue)
qed

theorem breadth_first_order_witness:
  "processed_pages demo_site ''d'' 2 None (initial_state ''fw'' ''d'' 0) =
     [(''d'', 0), (''d/api/a'', 1), (''d/api/b'', 1), (''d/api/c'', 2)] \<and>
   sorted (map snd (processed_pages demo_site ''d'' 2 None (initial_state ''fw'' ''d'' 0))) \<and>
   crawl_loop demo_site ''d'' 2 None (initial_state ''fw'' ''d'' 0) = Inr demo_exit \<and>
   fset (visited_urls demo_exit) =
     fst ` set (processed_pages demo_site ''d'' 2 None (initial_state ''fw'' ''d'' 0)) \<and>
   subseq (map (apsnd node_depth) (kg_nodes (knowledge_graph demo_exit)))
     (processed_pages demo_site ''d'' 2 None (initial_state ''fw'' ''d'' 0)) \<and>
   map (apsnd node_depth) (kg_nodes (knowledge_graph demo_exit)) =
     [(''d'', 0), (''d/api/a'', 1), (''d/api/b'', 1)] \<and>
   fst (extend_knowledge_graph demo_init demo_site ''fw'' ''d'' 2 None 0) = Inr demo_graph \<and>
   subseq (map (apsnd node_depth) (kg_nodes demo_graph))
     (processed_pages demo_site ''d'' 2 None (initial_state ''fw'' ''d'' (snd (demo_init 0)))) \<and>
   sorted (map (\<lambda>(url, node). node_depth node) (kg_nodes demo_graph)) \<and>
   fetch_log demo_init demo_site ''fw'' ''d'' 2 None 0 =
     map fst (processed_pages (logged demo_site) ''d'' 2 None (initial_state ''fw'' ''d'' (0, []))) \<and>
   fetch_log demo_init demo_site ''fw'' ''d'' 2 None 0 =
     [''d'', ''d/api/a'', ''d/api/b'', ''d/api/c''] \<and>
   url_queue demo_after_base = (''d/api/a'', 1) # [(''d/api/b'', 1), (''d/api/a'', 1)] \<and>
   loop_body demo_site ''d'' 2 None demo_after_base = Inr demo_after_a \<and>
   url_queue demo_after_a =
     [(''d/api/b'', 1), (''d/api/a'', 1)] @
     map (\<lambda>link. (link, 1 + 1))
       (accepted_links ''d'' None [PStr ''d/api/b'', PStr ''d'', PStr ''d/api/c'']) \<and>
   url_queue demo_after_a =
     [(''d/api/b'', 1), (''d/api/a'', 1), (''d/api/b'', 2), (''d/api/c'', 2)]"
proof -
  note inst = breadth_first_order [where fetch = demo_site and base_url = "''d''"
      and depth = 2 and patterns = None and framework_name = "''fw''" and ?w1.0 = 0
      and ?st1.0 = demo_exit and init = demo_init and w = 0 and g = demo_graph
      and st = demo_after_base and url = "''d/api/a''" and d = 1
      and rest = "[(''d/api/b'', 1), (''d/api/a'', 1)]" and st' = demo_after_a]
  have r: "fst (extend_knowledge_graph demo_init demo_site ''fw'' ''d'' 2 None 0) = Inr demo_graph"
    using demo_run by simp
  have q: "url_queue demo_after_base = (''d/api/a'', 1) # [(''d/api/b'', 1), (''d/api/a'', 1)]"
    by (simp add: demo_after_base_def)
  note c1 = inst [THEN conjunct1]
  note c2 = inst [THEN conjunct2, THEN conjunct1, THEN mp, OF demo_loop]
  note c3 = inst [THEN conjunct2, THEN conjunct2, THEN conjunct1, THEN mp, OF r]
  note c4 = inst [THEN conjunct2, THEN conjunct2, THEN conjunct2, THEN conjunct1]
  note c6 = inst [THEN conjunct2, THEN conjunct2, THEN conjunct2, THEN conjunct2, THEN conjunct2,
      THEN mp, OF conjI [OF q demo_iterations(2)]]
  have nodes: "map (apsnd node_depth) (kg_nodes (knowledge_graph demo_exit)) =
     [(''d'', 0), (''d/api/a'', 1), (''d/api/b'', 1)]"
    by (simp add: demo_exit_def demo_graph_def)
  have log: "fetch_log demo_init demo_site ''fw'' ''d'' 2 None 0 =
     map fst (processed_pages (logged demo_site) ''d'' 2 None (initial_state ''fw'' ''d'' (0, [])))"
    using c4 by (simp add: demo_init_def)
  have step: "url_queue demo_after_a =
     [(''d/api/b'', 1), (''d/api/a'', 1)] @
     map (\<lambda>link. (link, 1 + 1))
       (accepted_links ''d'' None [PStr ''d/api/b'', PStr ''d'', PStr ''d/api/c''])"
    using c6 by (simp add: demo_after_base_def demo_site_def dict_get_def dict_get_default_def)
  have final: "url_queue demo_after_a =
     [(''d/api/b'', 1), (''d/api/a'', 1), (''d/api/b'', 2), (''d/api/c'', 2)]"
    by (simp add: demo_after_a_def)
  show ?thesis
    by (intro conjI)
      (fact demo_processed c1 demo_loop c2 [THEN conjunct1] c2 [THEN conjunct2] nodes r
         c3 [THEN conjunct1] c3 [THEN conjunct2] log demo_fetch_log q demo_iterations(2)
         step final)+
qed

section \<open>Edges\<close>

lemma edges_from_nodes_step:
  assumes "edges_from_nodes s" "loop_body fetch base_url depth patterns s = Inr s'"
  shows "edges_from_nodes s'"
  using assms(2)
proof (cases rule: loop_body_Inr_shape)
  case (skip u d rest)
  with assms(1) show ?thesis by (simp add: edges_from_nodes_def)
next
  case (failed u d rest result w)
  with assms(1) show ?thesis by (simp add: edges_from_nodes_def)
next
  case (stored u d rest result w node new)
  from stored(11,12) assms(1) show ?thesis
    by (auto simp: edges_from_nodes_def dom_update)
qed

text \<open>
  C9. In a returned graph the source of every edge is a key of the nodes mapping. Nothing
  of the kind holds of the target: in the crawl of the example site, the page \<open>c\<close>, whose
  fetch fails, is the target of an edge and has no node.
\<close>

theorem edge_from_is_node:
  assumes "fst (extend_knowledge_graph init fetch framework_name base_url depth patterns w) = Inr g"
    and "e \<in> set (kg_relationships g)"
  shows "edge_from e \<in> fst ` set (kg_nodes g)"
  using assms(1)
proof (cases rule: extend_knowledge_graph_Inr)
  case (1 c w1 st)
  have "edges_from_nodes (initial_state framework_name base_url w1)"
    by (simp add: edges_from_nodes_def initial_state_simps)
  with 1(2) have "edges_from_nodes st \<and> \<not> continues st"
    by (rule crawl_loop_invariant) (rule edges_from_nodes_step)
  with 1(3) assms(2) show ?thesis by (auto simp: edges_from_nodes_def)
qed

theorem edge_from_is_node_witness:
  "fst (extend_knowledge_graph demo_init demo_site ''fw'' ''d'' 2 None 0) = Inr demo_graph \<and>
   \<lparr>edge_from = ''d/api/a'', edge_to = ''d/api/c'', edge_type = ''references''\<rparr>
     \<in> set (kg_relationships demo_graph) \<and>
   ''d/api/a'' \<in> fst ` set (kg_nodes demo_graph) \<and>
   ''d/api/c'' \<notin> fst ` set (kg_nodes demo_graph)"
proof -
  from demo_run have r: "fst (extend_knowledge_graph demo_init demo_site ''fw'' ''d'' 2 None 0) = Inr demo_graph"
    by simp
  have e: "\<lparr>edge_from = ''d/api/a'', edge_to = ''d/api/c'', edge_type = ''references''\<rparr>
     \<in> set (kg_relationships demo_graph)"
    by (simp add: demo_graph_def)
  have t: "''d/api/c'' \<notin> fst ` set (kg_nodes demo_graph)"
    by (simp add: demo_graph_def)
  from edge_from_is_node [OF r e] r e t show ?thesis by simp
qed

section \<open>Negative depth\<close>

lemma crawl_loop_negative_depth:
  assumes "depth < 0"
  shows "crawl_loop fetch base_url depth patterns (initial_state framework_name base_url w) =
           Inr ((initial_state framework_name base_url w)\<lparr>url_queue := []\<rparr>)"
proof -
  let ?st0 = "initial_state framework_name base_url w"
  let ?st1 = "?st0\<lparr>url_queue := []\<rparr>"
  from assms have "loop_body fetch base_url depth patterns ?st0 = Inr ?st1"
    by (simp add: loop_body_def Let_def initial_state_simps)
  then have "crawl_loop fetch base_url depth patterns ?st0 = crawl_loop fetch base_url depth patterns ?st1"
    by (rule crawl_loop_step [OF continues_initial_state])
  also have "\<dots> = Inr ?st1"
    by (rule crawl_loop_exit) (simp add: continues_def)
  finally show ?thesis .
qed

lemma extend_knowledge_graph_negative_depth:
  assumes "depth < 0"
  shows "extend_knowledge_graph init fetch framework_name base_url depth patterns w =
           (case init w of
              (Inl e, w1) \<Rightarrow> (Inl e, w1)
            | (Inr c, w1) \<Rightarrow>
                (Inr \<lparr>kg_framework = framework_name, kg_base_url = base_url,
                       kg_nodes = [], kg_relationships = []\<rparr>, w1))"
proof -
  obtain r w1 where i: "init w = (r, w1)" by (cases "init w")
  show ?thesis
  proof (cases r)
    case (Inl e)
    with i show ?thesis by (simp add: extend_knowledge_graph_def)
  next
    case (Inr c)
    with i crawl_loop_negative_depth [OF assms, of fetch base_url patterns framework_name w1]
    show ?thesis
      by (simp add: extend_knowledge_graph_def initial_state_simps)
  qed
qed

text \<open>
  C10. With a negative \<open>depth\<close> the loop runs one iteration, which skips the base entry by
  the depth check: it exits with the queue empty, the visited set empty, the graph and the
  world untouched. So, once the crawler is initialised, \<open>extend_knowledge_graph\<close> makes no
  fetch, leaves the world as the initialisation left it, and returns the graph with the
  framework name and the base URL, no node and no edge.
\<close>

theorem negative_depth_empty_graph:
  assumes "depth < 0"
  shows "crawl_loop fetch base_url depth patterns (initial_state framework_name base_url w') =
           Inr \<lparr>knowledge_graph = \<lparr>kg_framework = framework_name, kg_base_url = base_url,
                                     kg_nodes = [], kg_relationships = []\<rparr>,
                url_queue = [], visited_urls = {||}, world = w'\<rparr> \<and>
         extend_knowledge_graph init fetch framework_name base_url depth patterns w =
           (case init w of
              (Inl e, w1) \<Rightarrow> (Inl e, w1)
            | (Inr c, w1) \<Rightarrow>
                (Inr \<lparr>kg_framework = framework_name, kg_base_url = base_url,
                       kg_nodes = [], kg_relationships = []\<rparr>, w1)) \<and>
         fetch_log init fetch framework_name base_url depth patterns w = []"
proof (intro conjI)
  show "crawl_loop fetch base_url depth patterns (initial_state framework_name base_url w') =
           Inr \<lparr>knowledge_graph = \<lparr>kg_framework = framework_name, kg_base_url = base_url,
                                     kg_nodes = [], kg_relationships = []\<rparr>,
                url_queue = [], visited_urls = {||}, world = w'\<rparr>"
    using crawl_loop_negative_depth [OF assms, of fetch base_url patterns framework_name w']
    by (simp add: initial_state_def)
  show "extend_knowledge_graph init fetch framework_name base_url depth patterns w =
           (case init w of
              (Inl e, w1) \<Rightarrow> (Inl e, w1)
            | (Inr c, w1) \<Rightarrow>
                (Inr \<lparr>kg_framework = framework_name, kg_base_url = base_url,
                       kg_nodes = [], kg_relationships = []\<rparr>, w1))"
    using assms by (rule extend_knowledge_graph_negative_depth)
  show "fetch_log init fetch framework_name base_url depth patterns w = []"
    unfolding fetch_log_def extend_knowledge_graph_negative_depth [OF assms]
    by (simp add: unlogged_def split: prod.splits sum.splits)
qed

theorem negative_depth_empty_graph_witness:
  "(- 1 :: int) < 0 \<and>
   crawl_loop demo_site ''d'' (- 1) None (initial_state ''fw'' ''d'' 0) =
     Inr \<lparr>knowledge_graph = \<lparr>kg_framework = ''fw'', kg_base_url = ''d'',
                               kg_nodes = [], kg_relationships = []\<rparr>,
          url_queue = [], visited_urls = {||}, world = 0\<rparr> \<and>
   extend_knowledge_graph demo_init demo_site ''fw'' ''d'' (- 1) None 0 =
     (Inr \<lparr>kg_framework = ''fw'', kg_base_url = ''d'', kg_nodes = [], kg_relationships = []\<rparr>, 0) \<and>
   fetch_log demo_init demo_site ''fw'' ''d'' (- 1) None 0 = []"
  using negative_depth_empty_graph [where depth = "- 1" and init = demo_init
      and fetch = demo_site and framework_name = "''fw''" and base_url = "''d''"
      and patterns = None and w = 0 and w' = 0]
  by (simp add: demo_init_def)

section \<open>The tool as the module binds it\<close>

lemma length_update_le: "length (AList.update k v al) \<le> Suc (length al)"
  by (induction al) auto

lemma never_expanded_step:
  assumes "never_expanded s"
    "loop_body (crawl_documentation ext) base_url depth patterns s = Inr s'"
  shows "never_expanded s'"
  using assms(2)
proof (cases rule: loop_body_Inr_cases)
  case (skip u d rest)
  with assms(1) show ?thesis by (simp add: never_expanded_def)
next
  case (failed u d rest result w)
  with assms(1) show ?thesis by (simp add: never_expanded_def)
next
  case (leaf u d rest result w node)
  with assms(1) length_update_le [of u node "kg_nodes (knowledge_graph s)"] show ?thesis
    by (simp add: never_expanded_def)
next
  case (expand u d rest result w node found)
  from crawl_documentation_structured_links [OF expand(4)] expand(7) have "found = []" by simp
  with expand(8) have "s' = s\<lparr>url_queue := rest, visited_urls := finsert u (visited_urls s), world := w,
             knowledge_graph := (knowledge_graph s)
               \<lparr>kg_nodes := AList.update u node (kg_nodes (knowledge_graph s))\<rparr>\<rparr>"
    by simp
  with expand(1) assms(1) length_update_le [of u node "kg_nodes (knowledge_graph s)"] show ?thesis
    by (simp add: never_expanded_def)
qed

lemma extend_knowledge_graph_tool_never_expands:
  assumes "fst (extend_knowledge_graph_tool ext framework_name base_url depth patterns sv) = Inr g"
  shows "kg_relationships g = [] \<and> length (kg_nodes g) \<le> 1"
  using assms unfolding extend_knowledge_graph_tool_def
proof (cases rule: extend_knowledge_graph_Inr)
  case (1 c w1 st)
  have "never_expanded (initial_state framework_name base_url w1)"
    by (simp add: never_expanded_def initial_state_simps)
  with 1(2) have "never_expanded st \<and> \<not> continues st"
    by (rule crawl_loop_invariant) (rule never_expanded_step)
  with 1(3) show ?thesis by (simp add: never_expanded_def)
qed

end
